theory Spec2Isabelle
  imports Main "HOL-Library.Sublist" "HOL-Library.Char_ord" "HOL-Library.List_Lexorder"
    "HOL-Library.AList"
begin

section \<open>Data model of cmd/plexctl/main.go\<close>

text \<open>
  A Go \<open>string\<close> and a Go \<open>[]byte\<close> are sequences of bytes; both are modelled as
  \<^typ>\<open>string\<close>, a list of 8-bit characters. A Go \<open>rune\<close> (an \<open>int32\<close>) is modelled as an
  integer.
\<close>

record Message =
  Role :: string
  Content :: string

record Thread =
  ID :: string
  Messages :: "Message list"

text \<open>\<open>sseDelta.Content\<close> is named \<open>DeltaContent\<close>: \<open>Content\<close> is the field of \<open>Message\<close>.\<close>

record sseDelta =
  DeltaContent :: string

record sseChoice =
  Delta :: sseDelta
  FinishReason :: string

record sseChunk =
  Choices :: "sseChoice list"
  Citations :: "string list"

text \<open>
  The errors the program returns. \<open>SaveThread e\<close> is \<open>fmt.Errorf("save thread: %w", e)\<close>,
  \<open>SSERead\<close> is \<open>fmt.Errorf("SSE read: %w", err)\<close>, \<open>UnsafePath p\<close> is
  \<open>fmt.Errorf("unsafe file path: %s", p)\<close>; \<open>SlicePanic\<close> is the run-time panic of a slice
  expression out of range.
\<close>

datatype error =
    AmbiguousPrefix string
  | NotFound
  | UnsafePath string
  | GetwdError
  | IOError
  | JSONError
  | SSERead
  | ContextCanceled
  | SaveThread error
  | SlicePanic

text \<open>
  What the program takes from the Go library and language: \<open>json.Unmarshal\<close> into an
  \<open>sseChunk\<close> and into a \<open>Thread\<close>, \<open>json.MarshalIndent\<close> of a \<open>Thread\<close>, and the runes a
  \<open>for ... range\<close> over a string yields. \<open>None\<close> is a non-nil \<open>err\<close>. The functions of the
  program take this record as their first argument, so every theorem about them holds for
  whatever the library computes.
\<close>

record golib =
  json_Unmarshal_sseChunk :: "string \<Rightarrow> sseChunk option"
  json_Unmarshal_Thread :: "string \<Rightarrow> Thread option"
  json_MarshalIndent_Thread :: "Thread \<Rightarrow> string option"
  range_runes :: "string \<Rightarrow> int list"

section \<open>The streaming loop: readSSE, processSSEChunk, checkEventEnd, appendSSEChunk\<close>

definition ssePrefixDataSize :: int where
  "ssePrefixDataSize = 6"

text \<open>\<open>bytes.Index(s, sep)\<close>: the index of the first instance of \<open>sep\<close> in \<open>s\<close>, or \<open>-1\<close>.\<close>

fun index_from :: "string \<Rightarrow> string \<Rightarrow> nat \<Rightarrow> int" where
  "index_from [] sep i = (if sep = [] then int i else - 1)"
| "index_from (c # cs) sep i =
     (if prefix sep (c # cs) then int i else index_from cs sep (Suc i))"

definition bytes_Index :: "string \<Rightarrow> string \<Rightarrow> int" where
  "bytes_Index s sep = index_from s sep 0"

text \<open>\<open>bytes.Contains(b, sub)\<close>.\<close>

definition bytes_Contains :: "string \<Rightarrow> string \<Rightarrow> bool" where
  "bytes_Contains b sub = sublist sub b"

text \<open>
  The state one call of \<open>readSSE\<close> owns: the rolling buffer \<open>buf\<close>, the text \<open>final\<close>, the
  citations \<open>finalCitations\<close>, and \<open>charCh\<close>, the runes sent on the channel so far, in order.
\<close>

record acc_state =
  buf :: string
  final :: string
  finalCitations :: "string list"
  charCh :: "int list"

text \<open>
  \<open>appendSSEChunk\<close> (lines 565-571). \<open>raw[dataIdx+ssePrefixDataSize:]\<close> panics when the
  bound is outside \<open>0 .. len(raw)\<close>; the panic is \<open>None\<close>.
\<close>

definition appendSSEChunk :: "string \<Rightarrow> string \<Rightarrow> int \<Rightarrow> string option" where
  "appendSSEChunk b raw dataIdx =
     (if dataIdx = - 1 then Some (b @ raw)
      else if dataIdx + ssePrefixDataSize < 0 \<or> int (length raw) < dataIdx + ssePrefixDataSize
        then None
      else Some (b @ drop (nat (dataIdx + ssePrefixDataSize)) raw))"

text \<open>
  The loop of lines 417-423: each rune is sent on the channel, unless the context is done.
  \<open>readSSE\<close> creates the context and cancels it only when it returns, so it runs the loop
  with a live context (\<open>ctx_done = False\<close>); with a done context the \<open>select\<close> is resolved to the
  \<open>ctx.Done()\<close> case.
\<close>

fun sendRunes :: "bool \<Rightarrow> int list \<Rightarrow> int list \<Rightarrow> error + int list" where
  "sendRunes ctx_done [] ch = Inr ch"
| "sendRunes ctx_done (r # rs) ch =
     (if ctx_done then Inl ContextCanceled else sendRunes ctx_done rs (ch @ [r]))"

text \<open>\<open>processSSEChunk\<close> (lines 387-425); \<open>Inr\<close> is the state after a nil return.\<close>

definition processSSEChunk :: "golib \<Rightarrow> bool \<Rightarrow> string \<Rightarrow> acc_state \<Rightarrow> error + acc_state" where
  "processSSEChunk L ctx_done raw st =
     (if length raw = 0 then Inr st
      else
        case appendSSEChunk (buf st) raw (bytes_Index raw ''data: '') of
          None \<Rightarrow> Inl SlicePanic
        | Some b \<Rightarrow>
           (case json_Unmarshal_sseChunk L b of
              None \<Rightarrow> Inr (st\<lparr>buf := b\<rparr>)
            | Some chunk \<Rightarrow>
               (let st1 = st\<lparr>buf := []\<rparr>;
                    st2 = (if length (Citations chunk) > 0
                           then st1\<lparr>finalCitations := Citations chunk\<rparr> else st1)
                in case Choices chunk of
                     [] \<Rightarrow> Inr st2
                   | choice # _ \<Rightarrow>
                      (let txt = DeltaContent (Delta choice);
                           st3 = st2\<lparr>final := final st2 @ txt\<rparr>
                       in case sendRunes ctx_done (range_runes L txt) (charCh st3) of
                            Inl e \<Rightarrow> Inl e
                          | Inr ch \<Rightarrow> Inr (st3\<lparr>charCh := ch\<rparr>)))))"

text \<open>
  What \<open>reader.ReadEvent()\<close> returns: the bytes and the error, \<open>None\<close> for nil. \<open>EOF\<close> is an
  error for which \<open>errors.Is(err, io.EOF)\<close> holds, \<open>ReadFailure\<close> any other.
\<close>

datatype read_err = EOF | ReadFailure

type_synonym event = "string \<times> read_err option"

text \<open>\<open>checkEventEnd\<close> (lines 540-563), without the debug output.\<close>

definition checkEventEnd :: "string \<Rightarrow> read_err option \<Rightarrow> bool \<times> error option" where
  "checkEventEnd raw err =
     (if err = Some EOF then (True, None)
      else if err \<noteq> None then (True, Some SSERead)
      else if bytes_Contains raw ''[DONE]'' then (True, None)
      else (False, None))"

text \<open>
  The loop of \<open>readSSE\<close> (lines 365-383) over the events the reader delivers, in order. The
  loop leaves only through a \<open>return\<close>; \<open>None\<close> says that it has not returned on the events
  delivered so far and waits for the next one. The result is the state at the return and
  the returned values, \<open>Inr (final, finalCitations)\<close> or \<open>Inl err\<close>.
\<close>

fun readSSE_loop ::
  "golib \<Rightarrow> acc_state \<Rightarrow> event list \<Rightarrow> (acc_state \<times> (error + string \<times> string list)) option" where
  "readSSE_loop L st [] = None"
| "readSSE_loop L st ((raw, err) # evs) =
     (case checkEventEnd raw err of
        (_, Some checkErr) \<Rightarrow> Some (st, Inl checkErr)
      | (True, None) \<Rightarrow> Some (st, Inr (final st, finalCitations st))
      | (False, None) \<Rightarrow>
         (case processSSEChunk L False raw st of
            Inl e \<Rightarrow> Some (st, Inl e)
          | Inr st' \<Rightarrow> readSSE_loop L st' evs))"

definition init_state :: acc_state where
  "init_state = \<lparr>buf = [], final = [], finalCitations = [], charCh = []\<rparr>"

definition readSSE :: "golib \<Rightarrow> event list \<Rightarrow> (acc_state \<times> (error + string \<times> string list)) option" where
  "readSSE L evs = readSSE_loop L init_state evs"

section \<open>Paths: filepath.Clean, filepath.Join, filepath.Abs (Unix) and checkPath\<close>

text \<open>\<open>strings.Join\<close>: the elements with the separator between them.\<close>

fun intercalate :: "'a list \<Rightarrow> 'a list list \<Rightarrow> 'a list" where
  "intercalate sep [] = []"
| "intercalate sep [x] = x"
| "intercalate sep (x # y # ys) = x @ sep @ intercalate sep (y # ys)"

text \<open>The pieces of a path between separators; \<open>components\<close> drops the empty ones.\<close>

fun splitSep :: "string \<Rightarrow> string list" where
  "splitSep [] = [] # []"
| "splitSep (c # cs) =
     (if c = CHR ''/'' then [] # splitSep cs
      else case splitSep cs of [] \<Rightarrow> [c] # [] | x # xs \<Rightarrow> (c # x) # xs)"

definition components :: "string \<Rightarrow> string list" where
  "components p = filter (\<lambda>c. c \<noteq> []) (splitSep p)"

definition IsAbs :: "string \<Rightarrow> bool" where
  "IsAbs p = prefix ''/'' p"

text \<open>
  One element of the path in \<open>filepath.Clean\<close>: \<open>.\<close> is dropped; \<open>..\<close> removes the element
  before it, is dropped at the root, and is kept at the start of a relative path.
\<close>

definition clean_step :: "bool \<Rightarrow> string list \<Rightarrow> string \<Rightarrow> string list" where
  "clean_step rooted out c =
     (if c = ''.'' then out
      else if c = ''..'' then
        (if out \<noteq> [] \<and> last out \<noteq> ''..'' then butlast out
         else if rooted then out
         else out @ [c])
      else out @ [c])"

definition filepath_Clean :: "string \<Rightarrow> string" where
  "filepath_Clean p =
     (let out = foldl (clean_step (IsAbs p)) [] (components p)
      in if IsAbs p then CHR ''/'' # intercalate ''/'' out
         else if out = [] then ''.''
         else intercalate ''/'' out)"

text \<open>\<open>filepath.Join\<close>: the elements from the first non-empty one on, joined and cleaned.\<close>

fun filepath_Join :: "string list \<Rightarrow> string" where
  "filepath_Join [] = []"
| "filepath_Join (e # es) =
     (if e = [] then filepath_Join es else filepath_Clean (intercalate ''/'' (e # es)))"

text \<open>\<open>filepath.Abs\<close>; \<open>wd\<close> is what \<open>os.Getwd\<close> returns, \<open>None\<close> when it fails.\<close>

definition filepath_Abs :: "string option \<Rightarrow> string \<Rightarrow> error + string" where
  "filepath_Abs wd p =
     (if IsAbs p then Inr (filepath_Clean p)
      else case wd of None \<Rightarrow> Inl GetwdError | Some d \<Rightarrow> Inr (filepath_Join [d, p]))"

text \<open>\<open>checkPath\<close> (lines 186-200).\<close>

definition checkPath :: "string option \<Rightarrow> string \<Rightarrow> string \<Rightarrow> error + string" where
  "checkPath wd basePath filePath =
     (case filepath_Abs wd filePath of
        Inl err \<Rightarrow> Inl err
      | Inr absFile \<Rightarrow>
         (case filepath_Abs wd basePath of
            Inl err \<Rightarrow> Inl err
          | Inr absBase \<Rightarrow>
             if \<not> prefix (absBase @ ''/'') absFile \<and> absFile \<noteq> absBase
             then Inl (UnsafePath filePath)
             else Inr absFile))"

section \<open>The file system under the store\<close>

text \<open>
  The part of the operating system the store uses: the working directory (\<open>None\<close> when
  \<open>os.Getwd\<close> fails), the directories that exist and the regular files with their content,
  both by absolute cleaned path. There are no symbolic links. Reading fails for a path that
  is not there; writing fails for a path the system does not take, for a directory that is
  not there and for a path that is a directory. The failures that depend on the machine and
  not on the path (permissions, space) are left out.
\<close>

record os_state =
  cwd :: "string option"
  dirs :: "string list"
  files :: "(string \<times> string) list"

text \<open>The directory and the last element of an absolute cleaned path.\<close>

definition base_of :: "string \<Rightarrow> string" where
  "base_of p = rev (takeWhile (\<lambda>c. c \<noteq> CHR ''/'') (rev p))"

definition dir_of :: "string \<Rightarrow> string" where
  "dir_of p =
     (let d = rev (drop 1 (dropWhile (\<lambda>c. c \<noteq> CHR ''/'') (rev p)))
      in if d = [] then ''/'' else d)"

text \<open>
  \<open>os.ReadDir\<close>: the names of the entries of the directory, files and directories, sorted
  by name. An entry has a non-empty name and is neither \<open>.\<close> nor \<open>..\<close>.
\<close>

definition entry_names :: "os_state \<Rightarrow> string \<Rightarrow> string list" where
  "entry_names os d =
     filter (\<lambda>n. n \<noteq> [] \<and> n \<noteq> ''.'' \<and> n \<noteq> ''..'')
       (map base_of (filter (\<lambda>p. p \<noteq> ''/'' \<and> dir_of p = d) (map fst (files os) @ dirs os)))"

definition os_ReadDir :: "os_state \<Rightarrow> string \<Rightarrow> error + string list" where
  "os_ReadDir os name =
     (case filepath_Abs (cwd os) name of
        Inl e \<Rightarrow> Inl IOError
      | Inr d \<Rightarrow>
         if d \<in> set (dirs os) then Inr (sort (remdups (entry_names os d)))
         else Inl IOError)"

text \<open>\<open>os.Open\<close> and \<open>io.ReadAll\<close> of a path.\<close>

definition os_ReadFile :: "os_state \<Rightarrow> string \<Rightarrow> error + string" where
  "os_ReadFile os p = (case map_of (files os) p of None \<Rightarrow> Inl IOError | Some data \<Rightarrow> Inr data)"

text \<open>
  A path the system takes for a file to create: no NUL byte in it (\<open>EINVAL\<close>), at most
  \<open>PATH_MAX - 1 = 4095\<close> bytes, and a last element of at most \<open>NAME_MAX = 255\<close> bytes
  (\<open>ENAMETOOLONG\<close>).
\<close>

definition os_valid_path :: "string \<Rightarrow> bool" where
  "os_valid_path p =
     (CHR 0x00 \<notin> set p \<and> int (length p) \<le> 4095 \<and> int (length (base_of p)) \<le> 255)"

text \<open>
  \<open>os.WriteFile\<close>: the file is created, or replaced, in a directory that is there. It is an
  error when the system does not take the path, when the directory is missing and when the
  path is a directory.
\<close>

definition os_WriteFile :: "os_state \<Rightarrow> string \<Rightarrow> string \<Rightarrow> error + os_state" where
  "os_WriteFile os p data =
     (if os_valid_path p \<and> dir_of p \<in> set (dirs os) \<and> p \<notin> set (dirs os) \<and> base_of p \<noteq> []
      then Inr (os\<lparr>files := AList.update p data (files os)\<rparr>)
      else Inl IOError)"

section \<open>The store: FSStore.Load, FSStore.Save, safeReadFile, safeWriteFile\<close>

record FSStore =
  basePath :: string

text \<open>\<open>safeReadFile\<close> (lines 156-172) and \<open>safeWriteFile\<close> (lines 174-184).\<close>

definition safeReadFile :: "os_state \<Rightarrow> string \<Rightarrow> string \<Rightarrow> error + string" where
  "safeReadFile os bp filePath =
     (case checkPath (cwd os) bp filePath of
        Inl err \<Rightarrow> Inl err
      | Inr absFile \<Rightarrow> os_ReadFile os absFile)"

definition safeWriteFile :: "os_state \<Rightarrow> string \<Rightarrow> string \<Rightarrow> string \<Rightarrow> error + os_state" where
  "safeWriteFile os bp filePath data =
     (case checkPath (cwd os) bp filePath of
        Inl err \<Rightarrow> Inl err
      | Inr absFile \<Rightarrow> os_WriteFile os absFile data)"

text \<open>The loop of \<open>Load\<close> (lines 97-108) over the entries, \<open>match\<close> being the name found so far.\<close>

fun Load_loop :: "string \<Rightarrow> string list \<Rightarrow> string \<Rightarrow> error + string" where
  "Load_loop idPrefix [] match = Inr match"
| "Load_loop idPrefix (f # fs) match =
     (if prefix idPrefix f then
        (if match \<noteq> [] then Inl (AmbiguousPrefix idPrefix) else Load_loop idPrefix fs f)
      else Load_loop idPrefix fs match)"

text \<open>\<open>FSStore.Load\<close> (lines 92-122).\<close>

definition Load :: "golib \<Rightarrow> os_state \<Rightarrow> FSStore \<Rightarrow> string \<Rightarrow> error + Thread" where
  "Load L os fs idPrefix =
     (case os_ReadDir os (basePath fs) of
        Inl err \<Rightarrow> Inl err
      | Inr entries \<Rightarrow>
         (case Load_loop idPrefix entries [] of
            Inl err \<Rightarrow> Inl err
          | Inr match \<Rightarrow>
             if match = [] then Inl NotFound
             else
               (case safeReadFile os (basePath fs) (filepath_Join [basePath fs, match]) of
                  Inl err \<Rightarrow> Inl err
                | Inr data \<Rightarrow>
                   (case json_Unmarshal_Thread L data of
                      None \<Rightarrow> Inl JSONError
                    | Some th \<Rightarrow> Inr th))))"

text \<open>\<open>FSStore.Save\<close> (lines 124-131): the file system after the write, or the error.\<close>

definition Save :: "golib \<Rightarrow> os_state \<Rightarrow> FSStore \<Rightarrow> Thread \<Rightarrow> error + os_state" where
  "Save L os fs th =
     (case json_MarshalIndent_Thread L th of
        None \<Rightarrow> Inl JSONError
      | Some data \<Rightarrow>
         safeWriteFile os (basePath fs) (filepath_Join [basePath fs, ID th @ ''.json'']) data)"

section \<open>handleCompletionResponse\<close>

text \<open>What \<open>handleCompletionResponse\<close> prints on the standard output.\<close>

datatype printed = CitationsHeader | CitationLine nat string

definition print_citations :: "string list \<Rightarrow> printed list" where
  "print_citations citations =
     (if length citations > 0
      then CitationsHeader # map (\<lambda>(i, c). CitationLine (i + 1) c) (enumerate 0 citations)
      else [])"

text \<open>
  \<open>handleCompletionResponse\<close> (lines 492-512), with the store an \<open>FSStore\<close>: the returned
  error (\<open>None\<close> for nil), the file system and the thread after the call, and the output.
\<close>

definition handleCompletionResponse ::
  "golib \<Rightarrow> os_state \<Rightarrow> FSStore \<Rightarrow> Thread \<Rightarrow> string \<Rightarrow> string list
     \<Rightarrow> error option \<times> os_state \<times> Thread \<times> printed list" where
  "handleCompletionResponse L os store th finalContent citations =
     (if finalContent \<noteq> [] then
        (let th' = th\<lparr>Messages := Messages th @ [\<lparr>Role = ''assistant'', Content = finalContent\<rparr>]\<rparr>
         in case Save L os store th' of
              Inl err \<Rightarrow> (Some (SaveThread err), os, th', [])
            | Inr os' \<Rightarrow> (None, os', th', print_citations citations))
      else (None, os, th, print_citations citations))"

section \<open>The Paced Emitter: startSmoothPrinter and its producer in readSSE\<close>

definition smoothPrintBufferSize :: nat where
  "smoothPrintBufferSize = 1024"

text \<open>
  The two tasks of one call. The producer is \<open>readSSE\<close>: it sends the runes of the chunks
  on \<open>charCh\<close> (\<open>Sending\<close>, lines 417-423), then closes the channel and waits for the
  printer (\<open>Joining\<close>, \<open>close(charCh); wg.Wait()\<close>), then returns, which runs the deferred
  \<open>cancel()\<close> (\<open>Returned\<close>). The consumer is the goroutine of \<open>startSmoothPrinter\<close>
  (lines 521-537): it is at its \<open>select\<close> (\<open>Selecting\<close>), or has printed a rune and waits
  for the ticker (\<open>Ticking\<close>), or has returned (\<open>Exited\<close>).
\<close>

datatype producer_pc = Sending | Joining | Returned

datatype consumer_pc = Selecting | Ticking | Exited

text \<open>
  \<open>pending\<close> are the runes the producer has still to submit, \<open>chanbuf\<close> the buffer of the
  channel, oldest first, \<open>sink\<close> what has been printed.
\<close>

record emitter =
  pending :: "int list"
  chanbuf :: "int list"
  chan_closed :: bool
  sink :: "int list"
  ctx_cancelled :: bool
  producer :: producer_pc
  consumer :: consumer_pc

definition emitter_init :: "int list \<Rightarrow> emitter" where
  "emitter_init xs =
     \<lparr>pending = xs, chanbuf = [], chan_closed = False, sink = [], ctx_cancelled = False,
      producer = Sending, consumer = Selecting\<rparr>"

datatype actor = Producer | Consumer

text \<open>
  One step of a task, \<open>None\<close> when the task is blocked or has ended. A send blocks while the
  buffer is full; a receive takes the oldest rune, also from a closed channel, and reports
  the closed channel only once the buffer is empty. Where a \<open>select\<close> has the case
  \<open>ctx.Done()\<close> ready it is taken.
\<close>

fun act :: "actor \<Rightarrow> emitter \<Rightarrow> emitter option" where
  "act Producer s =
     (case producer s of
        Sending \<Rightarrow>
          (case pending s of
             [] \<Rightarrow> Some (s\<lparr>chan_closed := True, producer := Joining\<rparr>)
           | r # rs \<Rightarrow>
               if ctx_cancelled s then Some (s\<lparr>chan_closed := True, producer := Joining\<rparr>)
               else if length (chanbuf s) < smoothPrintBufferSize
                 then Some (s\<lparr>pending := rs, chanbuf := chanbuf s @ [r]\<rparr>)
               else None)
      | Joining \<Rightarrow>
          if consumer s = Exited then Some (s\<lparr>producer := Returned, ctx_cancelled := True\<rparr>)
          else None
      | Returned \<Rightarrow> None)"
| "act Consumer s =
     (case consumer s of
        Selecting \<Rightarrow>
          if ctx_cancelled s then Some (s\<lparr>consumer := Exited\<rparr>)
          else
            (case chanbuf s of
               r # q \<Rightarrow> Some (s\<lparr>chanbuf := q, sink := sink s @ [r], consumer := Ticking\<rparr>)
             | [] \<Rightarrow> if chan_closed s then Some (s\<lparr>consumer := Exited\<rparr>) else None)
      | Ticking \<Rightarrow> Some (s\<lparr>consumer := Selecting\<rparr>)
      | Exited \<Rightarrow> None)"

text \<open>A schedule is the order in which the tasks are given a step; a blocked task skips its turn.\<close>

fun run :: "actor list \<Rightarrow> emitter \<Rightarrow> emitter" where
  "run [] s = s"
| "run (a # sched) s = (case act a s of None \<Rightarrow> run sched s | Some s' \<Rightarrow> run sched s')"

text \<open>The schedule that gives the producer and the consumer a step in turn, \<open>n\<close> times.\<close>

definition round_robin :: "nat \<Rightarrow> actor list" where
  "round_robin n = concat (replicate n [Producer, Consumer])"

section \<open>An instance of the library\<close>

text \<open>
  The theorems below are stated for every \<^typ>\<open>golib\<close>. To evaluate the program on
  concrete frames and files, \<open>go_lib\<close> implements the library functions: a parser of JSON
  text (RFC 8259), the conversion of the parsed value to the struct as \<open>encoding/json\<close>
  does it, the encoder of \<open>json.MarshalIndent(th, "", "  ")\<close>, and UTF-8 decoding.
  Object keys are matched with the struct tags after ASCII case folding, values of unknown
  keys are ignored, \<open>null\<close> leaves a field as it is, a value of the wrong type is an error,
  and of two members with the same key the later one replaces the earlier one. The instance
  serves the witnesses and the counterexamples only; their inputs are plain ASCII JSON
  without repeated keys.
\<close>

datatype json =
    JNull
  | JBool bool
  | JNum string
  | JStr string
  | JArr "json list"
  | JObj "(string \<times> json) list"

definition is_ws :: "char \<Rightarrow> bool" where
  "is_ws c = (c = CHR '' '' \<or> c = CHR 0x09 \<or> c = CHR 0x0A \<or> c = CHR 0x0D)"

definition skip_ws :: "string \<Rightarrow> string" where
  "skip_ws s = dropWhile is_ws s"

definition is_digit :: "char \<Rightarrow> bool" where
  "is_digit c = (CHR ''0'' \<le> c \<and> c \<le> CHR ''9'')"

definition hex_val :: "char \<Rightarrow> int option" where
  "hex_val c =
     (let n = (of_char c :: int) in
      if 48 \<le> n \<and> n \<le> 57 then Some (n - 48)
      else if 97 \<le> n \<and> n \<le> 102 then Some (n - 87)
      else if 65 \<le> n \<and> n \<le> 70 then Some (n - 55)
      else None)"

definition hex4 :: "string \<Rightarrow> int option" where
  "hex4 s =
     (case map hex_val (take 4 s) of
        [Some a, Some b, Some c, Some d] \<Rightarrow> Some (((a * 16 + b) * 16 + c) * 16 + d)
      | _ \<Rightarrow> None)"

definition utf8_encode :: "int \<Rightarrow> string" where
  "utf8_encode n =
     (if n < 0x80 then [char_of n]
      else if n < 0x800 then [char_of (0xC0 + n div 64), char_of (0x80 + n mod 64)]
      else if n < 0x10000 then
        [char_of (0xE0 + n div 4096), char_of (0x80 + (n div 64) mod 64), char_of (0x80 + n mod 64)]
      else
        [char_of (0xF0 + n div 262144), char_of (0x80 + (n div 4096) mod 64),
         char_of (0x80 + (n div 64) mod 64), char_of (0x80 + n mod 64)])"

text \<open>
  \<open>utf8.DecodeRuneInString\<close>: the rune at the head of the string and its width in bytes;
  \<open>(0xFFFD, 1)\<close> for an invalid encoding, \<open>(0xFFFD, 0)\<close> for the empty string.
\<close>

definition decode_rune :: "string \<Rightarrow> int \<times> nat" where
  "decode_rune s =
     (case s of
        [] \<Rightarrow> (0xFFFD, 0)
      | c0 # rest \<Rightarrow>
         (let b0 = (of_char c0 :: int);
              b = (\<lambda>i. (of_char (rest ! i) :: int));
              (sz, lo, hi) =
                (if 0xC2 \<le> b0 \<and> b0 \<le> 0xDF then (2::nat, 0x80::int, 0xBF::int)
                 else if b0 = 0xE0 then (3, 0xA0, 0xBF)
                 else if b0 = 0xED then (3, 0x80, 0x9F)
                 else if 0xE1 \<le> b0 \<and> b0 \<le> 0xEF then (3, 0x80, 0xBF)
                 else if b0 = 0xF0 then (4, 0x90, 0xBF)
                 else if 0xF1 \<le> b0 \<and> b0 \<le> 0xF3 then (4, 0x80, 0xBF)
                 else if b0 = 0xF4 then (4, 0x80, 0x8F)
                 else (0, 0, 0))
          in if b0 < 0x80 then (b0, 1)
             else if sz = 0 \<or> length s < sz then (0xFFFD, 1)
             else if b 0 < lo \<or> hi < b 0 then (0xFFFD, 1)
             else if sz = 2 then ((b0 mod 32) * 64 + b 0 mod 64, 2)
             else if b 1 < 0x80 \<or> 0xBF < b 1 then (0xFFFD, 1)
             else if sz = 3 then ((b0 mod 16) * 4096 + (b 0 mod 64) * 64 + b 1 mod 64, 3)
             else if b 2 < 0x80 \<or> 0xBF < b 2 then (0xFFFD, 1)
             else ((b0 mod 8) * 262144 + (b 0 mod 64) * 4096 + (b 1 mod 64) * 64 + b 2 mod 64, 4)))"

text \<open>The runes of \<open>for _, r := range txt\<close>.\<close>

fun utf8_runes :: "string \<Rightarrow> int list" where
  "utf8_runes [] = []"
| "utf8_runes (c # cs) =
     (case decode_rune (c # cs) of (r, sz) \<Rightarrow> r # utf8_runes (drop (sz - 1) cs))"

text \<open>
  The content of a JSON string after its opening quote, unquoted: the bytes up to the
  closing quote and the rest of the input. Invalid UTF-8 becomes U+FFFD.
\<close>

fun parse_str :: "string \<Rightarrow> (string \<times> string) option" where
  "parse_str [] = None"
| "parse_str (c # cs) =
     (if c = CHR 0x22 then Some ([], cs)
      else if c = CHR 0x5C then
        (case cs of
           [] \<Rightarrow> None
         | e # r \<Rightarrow>
            (if e = CHR ''u'' then
               (case hex4 r of
                  None \<Rightarrow> None
                | Some n \<Rightarrow>
                   (if 0xD800 \<le> n \<and> n < 0xDC00 then
                      (case (if take 2 (drop 4 r) = [CHR 0x5C, CHR ''u''] then hex4 (drop 6 r) else None) of
                         Some m \<Rightarrow>
                           (if 0xDC00 \<le> m \<and> m < 0xE000 then
                              map_option (\<lambda>(t, rest). (utf8_encode (0x10000 + (n - 0xD800) * 1024 + (m - 0xDC00)) @ t, rest))
                                (parse_str (drop 10 r))
                            else map_option (\<lambda>(t, rest). (utf8_encode 0xFFFD @ t, rest)) (parse_str (drop 4 r)))
                       | None \<Rightarrow> map_option (\<lambda>(t, rest). (utf8_encode 0xFFFD @ t, rest)) (parse_str (drop 4 r)))
                    else if 0xDC00 \<le> n \<and> n < 0xE000 then
                      map_option (\<lambda>(t, rest). (utf8_encode 0xFFFD @ t, rest)) (parse_str (drop 4 r))
                    else map_option (\<lambda>(t, rest). (utf8_encode n @ t, rest)) (parse_str (drop 4 r))))
             else
               (case (if e = CHR 0x22 \<or> e = CHR 0x5C \<or> e = CHR ''/'' then Some e
                      else if e = CHR ''b'' then Some (CHR 0x08)
                      else if e = CHR ''f'' then Some (CHR 0x0C)
                      else if e = CHR ''n'' then Some (CHR 0x0A)
                      else if e = CHR ''r'' then Some (CHR 0x0D)
                      else if e = CHR ''t'' then Some (CHR 0x09)
                      else None) of
                  None \<Rightarrow> None
                | Some d \<Rightarrow> map_option (\<lambda>(t, rest). (d # t, rest)) (parse_str r))))
      else if (of_char c :: int) < 0x20 then None
      else if (of_char c :: int) < 0x80 then map_option (\<lambda>(t, rest). (c # t, rest)) (parse_str cs)
      else
        (case decode_rune (c # cs) of
           (r, sz) \<Rightarrow>
             if r = 0xFFFD \<and> sz = 1
             then map_option (\<lambda>(t, rest). (utf8_encode 0xFFFD @ t, rest)) (parse_str cs)
             else map_option (\<lambda>(t, rest). (take sz (c # cs) @ t, rest)) (parse_str (drop (sz - 1) cs))))"

text \<open>number: -? (0 | [1-9][0-9]*) (. [0-9]+)? ([eE] [+-]? [0-9]+)?\<close>

definition parse_num :: "string \<Rightarrow> (string \<times> string) option" where
  "parse_num s =
     (let (sign, s1) = (case s of c # r \<Rightarrow> if c = CHR ''-'' then ([c], r) else ([], s) | [] \<Rightarrow> ([], s));
          ip = takeWhile is_digit s1; s2 = dropWhile is_digit s1
      in if ip = [] \<or> (hd ip = CHR ''0'' \<and> length ip > 1) then None
         else
           (case (case s2 of
                    c # r \<Rightarrow>
                      if c = CHR ''.'' then
                        (if takeWhile is_digit r = [] then None
                         else Some (c # takeWhile is_digit r, dropWhile is_digit r))
                      else Some ([], s2)
                  | [] \<Rightarrow> Some ([], s2)) of
              None \<Rightarrow> None
            | Some (fp, s3) \<Rightarrow>
               (case s3 of
                  c # r \<Rightarrow>
                    if c = CHR ''e'' \<or> c = CHR ''E'' then
                      (let (es, r1) = (case r of d # r' \<Rightarrow>
                                         if d = CHR ''+'' \<or> d = CHR ''-'' then ([d], r') else ([], r)
                                       | [] \<Rightarrow> ([], r))
                       in if takeWhile is_digit r1 = [] then None
                          else Some (sign @ ip @ fp @ [c] @ es @ takeWhile is_digit r1,
                                     dropWhile is_digit r1))
                    else Some (sign @ ip @ fp, s3)
                | [] \<Rightarrow> Some (sign @ ip @ fp, s3))))"

fun parse_value :: "nat \<Rightarrow> string \<Rightarrow> (json \<times> string) option"
and parse_elems :: "nat \<Rightarrow> string \<Rightarrow> (json list \<times> string) option"
and parse_members :: "nat \<Rightarrow> string \<Rightarrow> ((string \<times> json) list \<times> string) option" where
  "parse_value 0 s = None"
| "parse_value (Suc n) s =
     (case s of
        [] \<Rightarrow> None
      | c # cs \<Rightarrow>
         if c = CHR ''{'' then
           (case skip_ws cs of
              [] \<Rightarrow> None
            | d # r \<Rightarrow> if d = CHR ''}'' then Some (JObj [], r)
                       else map_option (\<lambda>(kvs, rest). (JObj kvs, rest)) (parse_members n (d # r)))
         else if c = CHR ''['' then
           (case skip_ws cs of
              [] \<Rightarrow> None
            | d # r \<Rightarrow> if d = CHR '']'' then Some (JArr [], r)
                       else map_option (\<lambda>(vs, rest). (JArr vs, rest)) (parse_elems n (d # r)))
         else if c = CHR 0x22 then map_option (\<lambda>(t, rest). (JStr t, rest)) (parse_str cs)
         else if prefix ''true'' s then Some (JBool True, drop 4 s)
         else if prefix ''false'' s then Some (JBool False, drop 5 s)
         else if prefix ''null'' s then Some (JNull, drop 4 s)
         else map_option (\<lambda>(t, rest). (JNum t, rest)) (parse_num s))"
| "parse_elems 0 s = None"
| "parse_elems (Suc n) s =
     (case parse_value n s of
        None \<Rightarrow> None
      | Some (v, r) \<Rightarrow>
         (case skip_ws r of
            [] \<Rightarrow> None
          | d # r' \<Rightarrow>
             if d = CHR '','' then map_option (\<lambda>(vs, rest). (v # vs, rest)) (parse_elems n (skip_ws r'))
             else if d = CHR '']'' then Some ([v], r')
             else None))"
| "parse_members 0 s = None"
| "parse_members (Suc n) s =
     (case s of
        [] \<Rightarrow> None
      | q # s1 \<Rightarrow>
         if q \<noteq> CHR 0x22 then None
         else
           (case parse_str s1 of
              None \<Rightarrow> None
            | Some (k, s2) \<Rightarrow>
               (case skip_ws s2 of
                  [] \<Rightarrow> None
                | col # s3 \<Rightarrow>
                   if col \<noteq> CHR '':'' then None
                   else
                     (case parse_value n (skip_ws s3) of
                        None \<Rightarrow> None
                      | Some (v, r) \<Rightarrow>
                         (case skip_ws r of
                            [] \<Rightarrow> None
                          | d # r' \<Rightarrow>
                             if d = CHR '','' then
                               map_option (\<lambda>(kvs, rest). ((k, v) # kvs, rest)) (parse_members n (skip_ws r'))
                             else if d = CHR ''}'' then Some ([(k, v)], r')
                             else None)))))"

definition json_parse :: "string \<Rightarrow> json option" where
  "json_parse s =
     (case parse_value (2 * length s + 2) (skip_ws s) of
        None \<Rightarrow> None
      | Some (v, r) \<Rightarrow> if skip_ws r = [] then Some v else None)"

subsection \<open>From the parsed value to the structs\<close>

definition ascii_lower :: "string \<Rightarrow> string" where
  "ascii_lower s =
     map (\<lambda>c. if CHR ''A'' \<le> c \<and> c \<le> CHR ''Z'' then char_of ((of_char c :: int) + 32) else c) s"

fun fold_fields ::
  "(string \<Rightarrow> json \<Rightarrow> 'a \<Rightarrow> 'a option) \<Rightarrow> (string \<times> json) list \<Rightarrow> 'a \<Rightarrow> 'a option" where
  "fold_fields f [] a = Some a"
| "fold_fields f ((k, v) # kvs) a =
     (case f (ascii_lower k) v a of None \<Rightarrow> None | Some a' \<Rightarrow> fold_fields f kvs a')"

definition string_of_json :: "json \<Rightarrow> string \<Rightarrow> string option" where
  "string_of_json v old = (case v of JStr t \<Rightarrow> Some t | JNull \<Rightarrow> Some old | _ \<Rightarrow> None)"

fun all_some :: "'a option list \<Rightarrow> 'a list option" where
  "all_some [] = Some []"
| "all_some (None # xs) = None"
| "all_some (Some x # xs) = map_option ((#) x) (all_some xs)"

definition slice_of_json :: "(json \<Rightarrow> 'a option) \<Rightarrow> json \<Rightarrow> 'a list \<Rightarrow> 'a list option" where
  "slice_of_json elem v old =
     (case v of JArr vs \<Rightarrow> all_some (map elem vs) | JNull \<Rightarrow> Some old | _ \<Rightarrow> None)"

definition struct_of_json ::
  "(string \<Rightarrow> json \<Rightarrow> 'a \<Rightarrow> 'a option) \<Rightarrow> json \<Rightarrow> 'a \<Rightarrow> 'a option" where
  "struct_of_json f v old =
     (case v of JObj kvs \<Rightarrow> fold_fields f kvs old | JNull \<Rightarrow> Some old | _ \<Rightarrow> None)"

definition sseDelta_field :: "string \<Rightarrow> json \<Rightarrow> sseDelta \<Rightarrow> sseDelta option" where
  "sseDelta_field k v d =
     (if k = ''content''
      then map_option (\<lambda>t. d\<lparr>DeltaContent := t\<rparr>) (string_of_json v (DeltaContent d))
      else Some d)"

definition sseChoice_field :: "string \<Rightarrow> json \<Rightarrow> sseChoice \<Rightarrow> sseChoice option" where
  "sseChoice_field k v c =
     (if k = ''delta''
      then map_option (\<lambda>d. c\<lparr>Delta := d\<rparr>) (struct_of_json sseDelta_field v (Delta c))
      else if k = ''finish_reason''
      then map_option (\<lambda>t. c\<lparr>FinishReason := t\<rparr>) (string_of_json v (FinishReason c))
      else Some c)"

definition sseChunk_field :: "string \<Rightarrow> json \<Rightarrow> sseChunk \<Rightarrow> sseChunk option" where
  "sseChunk_field k v c =
     (if k = ''choices''
      then map_option (\<lambda>cs. c\<lparr>Choices := cs\<rparr>)
             (slice_of_json
                (\<lambda>e. struct_of_json sseChoice_field e
                        \<lparr>Delta = \<lparr>DeltaContent = []\<rparr>, FinishReason = []\<rparr>)
                v (Choices c))
      else if k = ''citations''
      then map_option (\<lambda>cs. c\<lparr>Citations := cs\<rparr>)
             (slice_of_json (\<lambda>e. string_of_json e []) v (Citations c))
      else Some c)"

definition unmarshal_sseChunk :: "string \<Rightarrow> sseChunk option" where
  "unmarshal_sseChunk s =
     (case json_parse s of
        None \<Rightarrow> None
      | Some v \<Rightarrow> struct_of_json sseChunk_field v \<lparr>Choices = [], Citations = []\<rparr>)"

definition Message_field :: "string \<Rightarrow> json \<Rightarrow> Message \<Rightarrow> Message option" where
  "Message_field k v m =
     (if k = ''role'' then map_option (\<lambda>t. m\<lparr>Role := t\<rparr>) (string_of_json v (Role m))
      else if k = ''content'' then map_option (\<lambda>t. m\<lparr>Content := t\<rparr>) (string_of_json v (Content m))
      else Some m)"

definition Thread_field :: "string \<Rightarrow> json \<Rightarrow> Thread \<Rightarrow> Thread option" where
  "Thread_field k v th =
     (if k = ''id'' then map_option (\<lambda>t. th\<lparr>ID := t\<rparr>) (string_of_json v (ID th))
      else if k = ''messages''
      then map_option (\<lambda>ms. th\<lparr>Messages := ms\<rparr>)
             (slice_of_json (\<lambda>e. struct_of_json Message_field e \<lparr>Role = [], Content = []\<rparr>)
                v (Messages th))
      else Some th)"

definition unmarshal_Thread :: "string \<Rightarrow> Thread option" where
  "unmarshal_Thread s =
     (case json_parse s of
        None \<Rightarrow> None
      | Some v \<Rightarrow> struct_of_json Thread_field v \<lparr>ID = [], Messages = []\<rparr>)"

subsection \<open>The encoder\<close>

definition hex_digit :: "int \<Rightarrow> char" where
  "hex_digit n = (if n < 10 then char_of (48 + n) else char_of (87 + n))"

text \<open>A string between quotes, escaped as \<open>encoding/json\<close> escapes it (with HTML escaping).\<close>

fun json_escape :: "string \<Rightarrow> string" where
  "json_escape [] = []"
| "json_escape (c # cs) =
     (let n = (of_char c :: int) in
      if n < 0x80 then
        (if c = CHR 0x22 \<or> c = CHR 0x5C then [CHR 0x5C, c]
         else if n = 0x08 then [CHR 0x5C, CHR ''b'']
         else if n = 0x0C then [CHR 0x5C, CHR ''f'']
         else if n = 0x0A then [CHR 0x5C, CHR ''n'']
         else if n = 0x0D then [CHR 0x5C, CHR ''r'']
         else if n = 0x09 then [CHR 0x5C, CHR ''t'']
         else if n < 0x20 \<or> c = CHR ''<'' \<or> c = CHR ''>'' \<or> c = CHR ''&''
           then [CHR 0x5C, CHR ''u'', CHR ''0'', CHR ''0'', hex_digit (n div 16), hex_digit (n mod 16)]
         else [c]) @ json_escape cs
      else
        (case decode_rune (c # cs) of
           (r, sz) \<Rightarrow>
             if r = 0xFFFD \<and> sz = 1 then CHR 0x5C # ''ufffd'' @ json_escape cs
             else if r = 0x2028 \<or> r = 0x2029
               then CHR 0x5C # ''u202'' @ [hex_digit (r mod 16)] @ json_escape (drop (sz - 1) cs)
             else take sz (c # cs) @ json_escape (drop (sz - 1) cs)))"

definition json_quote :: "string \<Rightarrow> string" where
  "json_quote s = CHR 0x22 # json_escape s @ [CHR 0x22]"

definition marshal_Message :: "Message \<Rightarrow> string" where
  \<open>marshal_Message m =
     ''    {\<newline>      "role": '' @ json_quote (Role m) @
     '',\<newline>      "content": '' @ json_quote (Content m) @ ''\<newline>    }''\<close>

text \<open>
  \<open>json.MarshalIndent(th, "", "  ")\<close>. An empty \<open>Messages\<close> is the nil slice and is encoded
  as \<open>null\<close>. The encoder has no error for a \<open>Thread\<close>.
\<close>

definition marshalIndent_Thread :: "Thread \<Rightarrow> string option" where
  \<open>marshalIndent_Thread th =
     Some (''{\<newline>  "id": '' @ json_quote (ID th) @ '',\<newline>  "messages": '' @
           (if Messages th = [] then ''null''
            else ''[\<newline>'' @ intercalate '',\<newline>'' (map marshal_Message (Messages th)) @ ''\<newline>  ]'') @
           ''\<newline>}'')\<close>

definition go_lib :: golib where
  "go_lib = \<lparr>json_Unmarshal_sseChunk = unmarshal_sseChunk,
             json_Unmarshal_Thread = unmarshal_Thread,
             json_MarshalIndent_Thread = marshalIndent_Thread,
             range_runes = utf8_runes\<rparr>"

subsection \<open>A file system with two stored conversations\<close>

definition example_store :: FSStore where
  "example_store = \<lparr>basePath = ''/home/u/.plexctl/threads''\<rparr>"

definition example_os :: os_state where
  \<open>example_os =
     \<lparr>cwd = Some ''/home/u'',
      dirs = [''/'', ''/home'', ''/home/u'', ''/home/u/.plexctl'', ''/home/u/.plexctl/threads''],
      files =
        [(''/home/u/.plexctl/threads/xyw.json'',
          ''{"id":"xyw","messages":[{"role":"user","content":"yo"}]}''),
         (''/home/u/.plexctl/threads/xyz.json'',
          ''{"id":"xyz","messages":[{"role":"user","content":"hi"},{"role":"assistant","content":"Hello"}]}'')]\<rparr>\<close>


section \<open>Notions of the specification\<close>

text \<open>
  The payload of a frame (spec 4.3, step 4): the bytes after the first \<open>data: \<close> marker in
  the frame, or the whole frame when it has no marker.
\<close>

definition payload :: "string \<Rightarrow> string" where
  "payload raw =
     (if bytes_Index raw ''data: '' = - 1 then raw
      else drop (nat (bytes_Index raw ''data: '' + 6)) raw)"

text \<open>
  Emitting a Structured Chunk (spec 4.3, step 5, and 4.5): the buffer is reset, a non-empty
  citation list replaces the working one, the content delta of the first choice is appended
  to the text and its runes are forwarded to the channel.
\<close>

definition emit_chunk :: "golib \<Rightarrow> sseChunk \<Rightarrow> acc_state \<Rightarrow> acc_state" where
  "emit_chunk L chunk st =
     (let txt = (case Choices chunk of [] \<Rightarrow> [] | choice # _ \<Rightarrow> DeltaContent (Delta choice))
      in st\<lparr>buf := [],
            final := final st @ txt,
            finalCitations := (if Citations chunk = [] then finalCitations st else Citations chunk),
            charCh := charCh st @ (case Choices chunk of [] \<Rightarrow> [] | _ # _ \<Rightarrow> range_runes L txt)\<rparr>)"

text \<open>The state after a sequence of frames has gone through \<open>processSSEChunk\<close>, context live.\<close>

fun process_all :: "golib \<Rightarrow> acc_state \<Rightarrow> string list \<Rightarrow> acc_state" where
  "process_all L st [] = st"
| "process_all L st (raw # raws) =
     (case processSSEChunk L False raw st of
        Inl e \<Rightarrow> st
      | Inr st' \<Rightarrow> process_all L st' raws)"


text \<open>An event that ends the loop of \<open>readSSE\<close>: \<open>checkEventEnd\<close> reports done.\<close>

definition terminal :: "event \<Rightarrow> bool" where
  "terminal e = fst (checkEventEnd (fst e) (snd e))"

text \<open>
  The Structured Chunks one call decodes from a sequence of frames, in order, starting from
  the buffer \<open>b\<close>.
\<close>

fun decoded_chunks :: "golib \<Rightarrow> string \<Rightarrow> string list \<Rightarrow> sseChunk list" where
  "decoded_chunks L b [] = []"
| "decoded_chunks L b (raw # raws) =
     (if raw = [] then decoded_chunks L b raws
      else case json_Unmarshal_sseChunk L (b @ payload raw) of
             None \<Rightarrow> decoded_chunks L (b @ payload raw) raws
           | Some chunk \<Rightarrow> chunk # decoded_chunks L [] raws)"

text \<open>The citations of the last chunk whose citation list is non-empty, \<open>init\<close> if there is none.\<close>

definition last_citations :: "string list \<Rightarrow> sseChunk list \<Rightarrow> string list" where
  "last_citations init cs =
     (case filter (\<lambda>c. Citations c \<noteq> []) cs of
        [] \<Rightarrow> init
      | c # cs' \<Rightarrow> Citations (last (c # cs')))"


text \<open>
  A plain file name: not empty, not \<open>.\<close> or \<open>..\<close>, without a separator. A base directory
  in the form \<open>NewFSStore\<close> gives it (\<open>filepath.Join\<close> of the home directory, \<open>.plexctl\<close> and
  \<open>threads\<close>) when the home directory is absolute: an absolute path in cleaned form, other
  than the root.
\<close>

text \<open>An element of a path: not empty, without a separator.\<close>

definition nice_name :: "string \<Rightarrow> bool" where
  "nice_name n = (n \<noteq> [] \<and> CHR ''/'' \<notin> set n)"

definition normal_name :: "string \<Rightarrow> bool" where
  "normal_name n = (n \<noteq> [] \<and> n \<noteq> ''.'' \<and> n \<noteq> ''..'' \<and> CHR ''/'' \<notin> set n)"

definition clean_abs :: "string \<Rightarrow> bool" where
  "clean_abs b = (IsAbs b \<and> filepath_Clean b = b \<and> b \<noteq> ''/'')"

text \<open>
  What holds of the emitter at every moment of a call that submits \<open>xs\<close>: the runes printed,
  buffered and still to submit are \<open>xs\<close> in order; the channel is closed once the producer
  has left its loop, with nothing left to submit; the context is cancelled only when the
  producer has returned, which it does only after the consumer; and the consumer has
  returned only with the channel closed and empty. \<open>emitter_measure\<close> bounds the steps left.
\<close>

definition emitter_inv :: "int list \<Rightarrow> emitter \<Rightarrow> bool" where
  "emitter_inv xs s =
     (sink s @ chanbuf s @ pending s = xs \<and>
      length (chanbuf s) \<le> smoothPrintBufferSize \<and>
      (chan_closed s \<longleftrightarrow> producer s \<noteq> Sending) \<and>
      (chan_closed s \<longrightarrow> pending s = []) \<and>
      (ctx_cancelled s \<longleftrightarrow> producer s = Returned) \<and>
      (producer s = Returned \<longrightarrow> consumer s = Exited) \<and>
      (consumer s = Exited \<longrightarrow> chan_closed s \<and> chanbuf s = []))"

definition emitter_measure :: "emitter \<Rightarrow> nat" where
  "emitter_measure s =
     4 * length (pending s) + 3 * length (chanbuf s) +
     (case producer s of Sending \<Rightarrow> 2 | Joining \<Rightarrow> 1 | Returned \<Rightarrow> 0) +
     (case consumer s of Ticking \<Rightarrow> 2 | Selecting \<Rightarrow> 1 | Exited \<Rightarrow> 0)"

section \<open>Lemmas on the streaming loop\<close>

lemma index_from_bounds:
  "index_from s sep i = - 1 \<or>
   (int i \<le> index_from s sep i \<and> index_from s sep i + int (length sep) \<le> int i + int (length s))"
proof (induction s arbitrary: i)
  case Nil
  then show ?case by simp
next
  case (Cons c cs)
  show ?case
  proof (cases "prefix sep (c # cs)")
    case True
    then have "length sep \<le> length (c # cs)" by (rule prefix_length_le)
    with True show ?thesis by simp
  next
    case False
    with Cons.IH [of "Suc i"] show ?thesis by auto
  qed
qed

lemma appendSSEChunk_payload:
  "appendSSEChunk b raw (bytes_Index raw ''data: '') = Some (b @ payload raw)"
  using index_from_bounds [of raw "''data: ''" 0]
  by (auto simp: appendSSEChunk_def payload_def bytes_Index_def ssePrefixDataSize_def)

lemma sendRunes_live: "sendRunes False rs ch = Inr (ch @ rs)"
  by (induction rs arbitrary: ch) auto

lemma processSSEChunk_live:
  "processSSEChunk L False raw st =
     Inr (if raw = [] then st
          else case json_Unmarshal_sseChunk L (buf st @ payload raw) of
                 None \<Rightarrow> st\<lparr>buf := buf st @ payload raw\<rparr>
               | Some chunk \<Rightarrow> emit_chunk L chunk st)"
  by (auto simp: processSSEChunk_def appendSSEChunk_payload sendRunes_live emit_chunk_def Let_def
           split: option.splits list.splits)

lemma processSSEChunk_decode_failure:
  "raw \<noteq> [] \<Longrightarrow> json_Unmarshal_sseChunk L (buf st @ payload raw) = None \<Longrightarrow>
   processSSEChunk L ctx_done raw st = Inr (st\<lparr>buf := buf st @ payload raw\<rparr>)"
  by (simp add: processSSEChunk_def appendSSEChunk_payload)

lemma not_terminal_check: "\<not> terminal (raw, err) \<Longrightarrow> checkEventEnd raw err = (False, None)"
  by (auto simp: terminal_def checkEventEnd_def split: if_splits)

lemma terminal_check:
  "terminal (raw, err) \<Longrightarrow>
   checkEventEnd raw err = (True, None) \<or> checkEventEnd raw err = (True, Some SSERead)"
  by (auto simp: terminal_def checkEventEnd_def split: if_splits)

lemma terminal_explicit:
  "terminal (raw, err) = (err = Some EOF \<or> err = Some ReadFailure \<or> bytes_Contains raw ''[DONE]'')"
proof (cases err)
  case None
  then show ?thesis by (simp add: terminal_def checkEventEnd_def)
next
  case (Some a)
  then show ?thesis by (cases a) (simp_all add: terminal_def checkEventEnd_def)
qed

lemma readSSE_loop_skip:
  "\<forall>e\<in>set pre. \<not> terminal e \<Longrightarrow>
   readSSE_loop L st (pre @ evs) = readSSE_loop L (process_all L st (map fst pre)) evs"
proof (induction pre arbitrary: st)
  case Nil
  then show ?case by simp
next
  case (Cons e pre)
  obtain raw err where e: "e = (raw, err)" by (cases e)
  from Cons.prems e have c: "checkEventEnd raw err = (False, None)"
    by (simp add: not_terminal_check)
  from Cons.prems have rest: "\<forall>e\<in>set pre. \<not> terminal e" by simp
  show ?case
    using Cons.IH [OF rest] by (simp add: e c processSSEChunk_live)
qed

lemma readSSE_loop_none: "\<forall>e\<in>set evs. \<not> terminal e \<Longrightarrow> readSSE_loop L st evs = None"
  using readSSE_loop_skip [of evs L st "[]"] by simp

lemma readSSE_loop_terminal:
  "terminal (raw, err) \<Longrightarrow> readSSE_loop L st ((raw, err) # evs) \<noteq> None"
  by (auto dest: terminal_check)

lemma emit_chunk_buf [simp]: "emit_chunk L c (st\<lparr>buf := b\<rparr>) = emit_chunk L c st"
  by (simp add: emit_chunk_def Let_def)




lemma finalCitations_process_all:
  "finalCitations (process_all L st raws) =
     last_citations (finalCitations st) (decoded_chunks L (buf st) raws)"
proof (induction raws arbitrary: st)
  case Nil
  then show ?case by (simp add: last_citations_def)
next
  case (Cons raw raws)
  show ?case
  proof (cases "raw = []")
    case True
    with Cons show ?thesis by (simp add: processSSEChunk_live)
  next
    case False
    show ?thesis
    proof (cases "json_Unmarshal_sseChunk L (buf st @ payload raw)")
      case None
      with False Cons.IH [of "st\<lparr>buf := buf st @ payload raw\<rparr>"] show ?thesis
        by (simp add: processSSEChunk_live)
    next
      case (Some c)
      with False Cons.IH [of "emit_chunk L c st"] show ?thesis
        by (auto simp: processSSEChunk_live emit_chunk_def Let_def last_citations_def
                 split: list.splits)
    qed
  qed
qed



section \<open>Lemmas on paths and the store\<close>

lemma splitSep_not_Nil: "splitSep s \<noteq> []"
  by (induction s) (auto split: list.splits)

lemma splitSep_no_sep: "CHR ''/'' \<notin> set s \<Longrightarrow> splitSep s = [s]"
  by (induction s) auto

lemma splitSep_append_sep:
  "CHR ''/'' \<notin> set name \<Longrightarrow> splitSep (a @ CHR ''/'' # name) = splitSep a @ [name]"
proof (induction a)
  case Nil
  then show ?case by (simp add: splitSep_no_sep)
next
  case (Cons c a)
  then show ?case
    using splitSep_not_Nil [of a] by (cases "splitSep a") auto
qed

lemma components_append_sep:
  "CHR ''/'' \<notin> set name \<Longrightarrow> name \<noteq> [] \<Longrightarrow>
   components (a @ CHR ''/'' # name) = components a @ [name]"
  by (simp add: components_def splitSep_append_sep)

lemma clean_step_normal:
  "name \<noteq> ''.'' \<Longrightarrow> name \<noteq> ''..'' \<Longrightarrow> clean_step r out name = out @ [name]"
  by (simp add: clean_step_def)

lemma intercalate_snoc:
  "intercalate sep (xs @ [x]) = (if xs = [] then x else intercalate sep xs @ sep @ x)"
  by (induction sep xs rule: intercalate.induct) auto

lemma Clean_child:
  assumes "clean_abs b" and "normal_name name"
  shows "filepath_Clean (b @ CHR ''/'' # name) = b @ CHR ''/'' # name"
proof -
  from assms(1) have abs: "IsAbs b" and cl: "filepath_Clean b = b" and nr: "b \<noteq> ''/''"
    by (simp_all add: clean_abs_def)
  let ?out = "foldl (clean_step True) [] (components b)"
  from abs cl have b: "b = CHR ''/'' # intercalate ''/'' ?out"
    by (simp add: filepath_Clean_def Let_def)
  with nr have ne: "?out \<noteq> []" by auto
  from abs have abs': "IsAbs (b @ CHR ''/'' # name)"
    by (auto simp: IsAbs_def prefix_def)
  from assms(2) have comps: "components (b @ CHR ''/'' # name) = components b @ [name]"
    by (simp add: components_append_sep normal_name_def)
  from assms(2) have "foldl (clean_step True) [] (components b @ [name]) = ?out @ [name]"
    by (simp add: clean_step_normal normal_name_def)
  with abs' comps ne have "filepath_Clean (b @ CHR ''/'' # name)
      = CHR ''/'' # intercalate ''/'' ?out @ CHR ''/'' # name"
    by (simp add: filepath_Clean_def Let_def intercalate_snoc)
  with b show ?thesis by simp
qed

lemma Join_child:
  assumes "clean_abs b" and "normal_name name"
  shows "filepath_Join [b, name] = b @ CHR ''/'' # name"
proof -
  from assms(1) have "b \<noteq> []" by (auto simp: clean_abs_def IsAbs_def)
  then show ?thesis using Clean_child [OF assms] by simp
qed

declare filepath_Join.simps [simp del]

lemma Abs_clean_abs: "clean_abs b \<Longrightarrow> filepath_Abs wd b = Inr b"
  by (simp add: filepath_Abs_def clean_abs_def)

lemma Abs_child:
  assumes "clean_abs b" and "normal_name name"
  shows "filepath_Abs wd (b @ CHR ''/'' # name) = Inr (b @ CHR ''/'' # name)"
proof -
  from assms(1) have "IsAbs (b @ CHR ''/'' # name)"
    by (auto simp: clean_abs_def IsAbs_def prefix_def)
  then show ?thesis by (simp add: filepath_Abs_def Clean_child [OF assms])
qed

lemma checkPath_child:
  assumes "clean_abs b" and "normal_name name"
  shows "checkPath wd b (filepath_Join [b, name]) = Inr (b @ CHR ''/'' # name)"
  unfolding Join_child [OF assms]
  by (simp add: checkPath_def Abs_child [OF assms] Abs_clean_abs [OF assms(1)])

lemma takeWhile_upto: "\<forall>x\<in>set xs. P x \<Longrightarrow> \<not> P y \<Longrightarrow> takeWhile P (xs @ y # ys) = xs"
  by (induction xs) auto

lemma dropWhile_upto: "\<forall>x\<in>set xs. P x \<Longrightarrow> \<not> P y \<Longrightarrow> dropWhile P (xs @ y # ys) = y # ys"
  by (induction xs) auto

lemma base_of_child:
  assumes "CHR ''/'' \<notin> set name"
  shows "base_of (b @ CHR ''/'' # name) = name"
proof -
  from assms have "\<forall>x\<in>set (rev name). x \<noteq> CHR ''/''" by auto
  then have "takeWhile (\<lambda>c. c \<noteq> CHR ''/'') (rev name @ CHR ''/'' # rev b) = rev name"
    by (rule takeWhile_upto) simp
  then show ?thesis by (simp add: base_of_def)
qed

lemma dir_of_child:
  assumes "CHR ''/'' \<notin> set name" and "b \<noteq> []"
  shows "dir_of (b @ CHR ''/'' # name) = b"
proof -
  from assms have "\<forall>x\<in>set (rev name). x \<noteq> CHR ''/''" by auto
  then have "dropWhile (\<lambda>c. c \<noteq> CHR ''/'') (rev name @ CHR ''/'' # rev b) = CHR ''/'' # rev b"
    by (rule dropWhile_upto) simp
  with assms(2) show ?thesis by (simp add: dir_of_def)
qed

lemma Load_loop_filter:
  "[] \<notin> set entries \<Longrightarrow>
   Load_loop p entries m =
     (if filter (prefix p) entries = [] then Inr m
      else if m \<noteq> [] \<or> tl (filter (prefix p) entries) \<noteq> [] then Inl (AmbiguousPrefix p)
      else Inr (hd (filter (prefix p) entries)))"
proof (induction entries arbitrary: m)
  case Nil
  then show ?case by simp
next
  case (Cons f fs)
  then have f: "f \<noteq> []" and rest: "[] \<notin> set fs" by auto
  show ?case
  proof (cases "prefix p f")
    case False
    then show ?thesis using Cons.IH [OF rest, of m] by simp
  next
    case True
    show ?thesis
    proof (cases "m = []")
      case False
      with True show ?thesis by simp
    next
      case m: True
      from True m have "Load_loop p (f # fs) m = Load_loop p fs f" by simp
      also have "\<dots> = (if filter (prefix p) fs = [] then Inr f else Inl (AmbiguousPrefix p))"
        using Cons.IH [OF rest, of f] f by simp
      finally show ?thesis using True m by simp
    qed
  qed
qed

lemma set_entry_names:
  "set (entry_names os d) =
     {n. n \<noteq> [] \<and> n \<noteq> ''.'' \<and> n \<noteq> ''..''} \<inter>
     base_of ` ({p. p \<noteq> ''/'' \<and> dir_of p = d} \<inter> (fst ` set (files os) \<union> set (dirs os)))"
  by (auto simp: entry_names_def)

lemma base_of_no_sep: "CHR ''/'' \<notin> set (base_of p)"
  unfolding base_of_def using set_takeWhileD [of "CHR ''/''" "\<lambda>c. c \<noteq> CHR ''/''" "rev p"] by auto

lemma entry_names_normal: "n \<in> set (entry_names os d) \<Longrightarrow> normal_name n"
  by (auto simp: set_entry_names normal_name_def base_of_no_sep)

lemma os_ReadDir_Inr:
  "os_ReadDir os name = Inr entries \<Longrightarrow>
   \<exists>d. filepath_Abs (cwd os) name = Inr d \<and> d \<in> set (dirs os) \<and>
       entries = sort (remdups (entry_names os d))"
  by (auto simp: os_ReadDir_def split: sum.splits if_splits)

lemma os_ReadDir_normal:
  "os_ReadDir os name = Inr entries \<Longrightarrow> m \<in> set entries \<Longrightarrow> normal_name m"
  using os_ReadDir_Inr [of os name entries] by (auto simp: entry_names_normal)

lemma os_ReadDir_distinct: "os_ReadDir os name = Inr entries \<Longrightarrow> distinct entries"
  using os_ReadDir_Inr [of os name entries] by auto

lemma os_ReadDir_no_empty: "os_ReadDir os name = Inr entries \<Longrightarrow> [] \<notin> set entries"
  using os_ReadDir_normal [of os name entries "[]"] by (auto simp: normal_name_def)

lemma filter_single:
  assumes "distinct xs" and "a \<in> set xs" and "P a" and "\<forall>x\<in>set xs. P x \<longrightarrow> x = a"
  shows "filter P xs = [a]"
proof -
  from assms(2,3,4) have "{x. P x} \<inter> set xs = {a}" by blast
  with distinct_length_filter [OF assms(1), of P] have "length (filter P xs) = 1" by simp
  then obtain y where y: "filter P xs = [y]"
    by (cases "filter P xs") simp_all
  then have "y \<in> set (filter P xs)" by simp
  then have "y \<in> set xs" and "P y" by simp_all
  with assms(4) have "y = a" by blast
  with y show ?thesis by simp
qed

lemma os_ReadDir_after_write:
  assumes rd: "os_ReadDir os bp = Inr entries"
    and ab: "filepath_Abs (cwd os) bp = Inr b"
    and b: "b \<noteq> []"
    and nn: "normal_name name"
  shows "\<exists>entries'. os_ReadDir (os\<lparr>files := AList.update (b @ CHR ''/'' # name) v (files os)\<rparr>) bp
            = Inr entries' \<and> set entries' = insert name (set entries) \<and> distinct entries'"
proof -
  let ?k = "b @ CHR ''/'' # name"
  let ?os' = "os\<lparr>files := AList.update ?k v (files os)\<rparr>"
  let ?R = "{p. p \<noteq> ''/'' \<and> dir_of p = b}"
  let ?Q = "{n. n \<noteq> [] \<and> n \<noteq> ''.'' \<and> n \<noteq> ''..''}"
  from nn have ns: "CHR ''/'' \<notin> set name" and nq: "name \<in> ?Q"
    by (simp_all add: normal_name_def)
  from os_ReadDir_Inr [OF rd] ab have d: "b \<in> set (dirs os)"
    and e: "entries = sort (remdups (entry_names os b))" by auto
  have keys: "fst ` set (files ?os') = insert ?k (fst ` set (files os))"
    by (simp add: AList.dom_update)
  have kb: "base_of ?k = name" by (rule base_of_child [OF ns])
  have kd: "dir_of ?k = b" by (rule dir_of_child [OF ns b])
  have kr: "?k \<noteq> ''/''" using b by (cases b) auto
  from kd kr have kR: "?k \<in> ?R" by simp
  have "?R \<inter> (fst ` set (files ?os') \<union> set (dirs ?os'))
          = insert ?k (?R \<inter> (fst ` set (files os) \<union> set (dirs os)))"
    unfolding keys using kR by auto
  then have "base_of ` (?R \<inter> (fst ` set (files ?os') \<union> set (dirs ?os')))
          = insert name (base_of ` (?R \<inter> (fst ` set (files os) \<union> set (dirs os))))"
    by (simp only: image_insert kb)
  then have "set (entry_names ?os' b) = insert name (set (entry_names os b))"
    unfolding set_entry_names using nq by (simp only: Int_insert_right_if1)
  moreover from ab d have "os_ReadDir ?os' bp = Inr (sort (remdups (entry_names ?os' b)))"
    by (simp add: os_ReadDir_def)
  ultimately show ?thesis using e by simp
qed

lemma normal_name_json: "CHR ''/'' \<notin> set i \<Longrightarrow> normal_name (i @ ''.json'')"
  by (cases i rule: rev_cases) (auto simp: normal_name_def)

lemma Save_writes:
  assumes "Save L os fs th = Inr os'"
  shows "\<exists>absFile data.
           checkPath (cwd os) (basePath fs) (filepath_Join [basePath fs, ID th @ ''.json'']) = Inr absFile \<and>
           json_MarshalIndent_Thread L th = Some data \<and>
           os' = os\<lparr>files := AList.update absFile data (files os)\<rparr> \<and>
           os_ReadFile os' absFile = Inr data"
proof -
  from assms obtain data where m: "json_MarshalIndent_Thread L th = Some data"
    and w: "safeWriteFile os (basePath fs) (filepath_Join [basePath fs, ID th @ ''.json'']) data = Inr os'"
    by (auto simp: Save_def split: option.splits)
  from w obtain absFile where
    c: "checkPath (cwd os) (basePath fs) (filepath_Join [basePath fs, ID th @ ''.json'']) = Inr absFile"
    and o: "os_WriteFile os absFile data = Inr os'"
    by (auto simp: safeWriteFile_def split: sum.splits)
  from o have os': "os' = os\<lparr>files := AList.update absFile data (files os)\<rparr>"
    by (auto simp: os_WriteFile_def split: if_splits)
  then have "os_ReadFile os' absFile = Inr data"
    by (simp add: os_ReadFile_def AList.update_conv')
  with c m os' show ?thesis by blast
qed

lemma splitSep_no_sep_elems: "\<forall>x\<in>set (splitSep s). CHR ''/'' \<notin> set x"
proof (induction s)
  case Nil
  then show ?case by simp
next
  case (Cons c s)
  then show ?case by (cases "splitSep s") auto
qed

lemma components_nice: "x \<in> set (components p) \<Longrightarrow> nice_name x"
  using splitSep_no_sep_elems [of p] by (auto simp: components_def nice_name_def)

lemma splitSep_append: "splitSep (a @ CHR ''/'' # b) = splitSep a @ splitSep b"
proof (induction a)
  case Nil
  then show ?case by simp
next
  case (Cons c a)
  then show ?case
    using splitSep_not_Nil [of a] by (cases "splitSep a") auto
qed

lemma components_append: "components (a @ CHR ''/'' # b) = components a @ components b"
  by (simp add: components_def splitSep_append)

lemma components_root: "components (CHR ''/'' # s) = components s"
  by (simp add: components_def)

lemma splitSep_intercalate:
  "xs \<noteq> [] \<Longrightarrow> \<forall>x\<in>set xs. CHR ''/'' \<notin> set x \<Longrightarrow> splitSep (intercalate ''/'' xs) = xs"
proof (induction "''/''" xs rule: intercalate.induct)
  case 1
  then show ?case by simp
next
  case (2 x)
  then show ?case by (simp add: splitSep_no_sep)
next
  case (3 x y ys)
  then show ?case by (simp add: splitSep_append splitSep_no_sep)
qed

lemma components_intercalate:
  assumes "\<forall>x\<in>set xs. nice_name x"
  shows "components (intercalate ''/'' xs) = xs"
proof (cases "xs = []")
  case True
  then show ?thesis by (simp add: components_def)
next
  case False
  from assms have "\<forall>x\<in>set xs. CHR ''/'' \<notin> set x" by (simp add: nice_name_def)
  with False have "splitSep (intercalate ''/'' xs) = xs" by (rule splitSep_intercalate)
  moreover from assms have "filter (\<lambda>c. c \<noteq> []) xs = xs"
    by (auto simp: nice_name_def filter_id_conv)
  ultimately show ?thesis by (simp add: components_def)
qed

lemma normal_nice: "normal_name n \<Longrightarrow> nice_name n"
  by (simp add: normal_name_def nice_name_def)

lemma clean_step_rooted_normal:
  assumes "\<forall>x\<in>set out. normal_name x" and "nice_name c"
  shows "\<forall>x\<in>set (clean_step True out c). normal_name x"
proof -
  have "set (butlast out) \<subseteq> set out" by (auto dest: in_set_butlastD)
  with assms show ?thesis
    by (auto simp: clean_step_def normal_name_def nice_name_def)
qed

lemma foldl_clean_rooted_normal:
  "\<forall>x\<in>set out. normal_name x \<Longrightarrow> \<forall>c\<in>set cs. nice_name c \<Longrightarrow>
   \<forall>x\<in>set (foldl (clean_step True) out cs). normal_name x"
proof (induction cs arbitrary: out)
  case Nil
  then show ?case by simp
next
  case (Cons c cs)
  from Cons.prems have "\<forall>x\<in>set (clean_step True out c). normal_name x"
    by (intro clean_step_rooted_normal) simp_all
  with Cons show ?case by simp
qed

lemma foldl_clean_normal:
  "\<forall>c\<in>set cs. normal_name c \<Longrightarrow> foldl (clean_step r) out cs = out @ cs"
  by (induction cs arbitrary: out) (simp_all add: clean_step_normal normal_name_def)

lemma Clean_rooted_form:
  assumes "IsAbs p"
  shows "\<exists>out. filepath_Clean p = CHR ''/'' # intercalate ''/'' out \<and> (\<forall>x\<in>set out. normal_name x)"
proof -
  let ?out = "foldl (clean_step True) [] (components p)"
  have "\<forall>x\<in>set ?out. normal_name x"
    by (rule foldl_clean_rooted_normal) (auto intro: components_nice)
  with assms show ?thesis by (auto simp: filepath_Clean_def Let_def)
qed

lemma Clean_of_form:
  assumes "\<forall>x\<in>set out. normal_name x"
  shows "filepath_Clean (CHR ''/'' # intercalate ''/'' out) = CHR ''/'' # intercalate ''/'' out"
    and "components (CHR ''/'' # intercalate ''/'' out) = out"
proof -
  from assms have nice: "\<forall>x\<in>set out. nice_name x" by (auto intro: normal_nice)
  show c: "components (CHR ''/'' # intercalate ''/'' out) = out"
    by (simp add: components_root components_intercalate [OF nice])
  have "IsAbs (CHR ''/'' # intercalate ''/'' out)" by (simp add: IsAbs_def)
  then show "filepath_Clean (CHR ''/'' # intercalate ''/'' out) = CHR ''/'' # intercalate ''/'' out"
    by (simp add: filepath_Clean_def Let_def c foldl_clean_normal [OF assms])
qed

lemma Clean_relative: "\<not> IsAbs p \<Longrightarrow> \<not> IsAbs (filepath_Clean p)"
proof -
  assume rel: "\<not> IsAbs p"
  let ?out = "foldl (clean_step False) [] (components p)"
  show ?thesis
  proof (cases "?out")
    case Nil
    with rel show ?thesis by (simp add: filepath_Clean_def Let_def IsAbs_def)
  next
    case (Cons x xs)
    have sub: "\<forall>y\<in>set (foldl (clean_step False) acc cs). y \<in> set acc \<or> y \<in> set cs" for acc cs
    proof (induction cs arbitrary: acc)
      case Nil
      then show ?case by simp
    next
      case (Cons c cs)
      have "set (clean_step False acc c) \<subseteq> set acc \<union> {c}"
        by (auto simp: clean_step_def dest: in_set_butlastD)
      with Cons.IH [of "clean_step False acc c"] show ?case by auto
    qed
    from sub [of "[]" "components p"] Cons have "x \<in> set (components p)" by auto
    then have "nice_name x" by (rule components_nice)
    then obtain c cs where x: "x = c # cs" and "c \<noteq> CHR ''/''"
      by (cases x) (auto simp: nice_name_def)
    then have "hd (intercalate ''/'' (x # xs)) = c" by (cases xs) simp_all
    moreover have "intercalate ''/'' (x # xs) \<noteq> []" using x by (cases xs) simp_all
    ultimately have "\<not> IsAbs (intercalate ''/'' (x # xs))"
      using \<open>c \<noteq> CHR ''/''\<close> by (cases "intercalate ''/'' (x # xs)") (auto simp: IsAbs_def)
    with rel Cons show ?thesis by (simp add: filepath_Clean_def Let_def)
  qed
qed

lemma Abs_form:
  assumes "filepath_Abs wd p = Inr a" and "IsAbs a"
  shows "\<exists>out. a = CHR ''/'' # intercalate ''/'' out \<and> (\<forall>x\<in>set out. normal_name x)"
proof -
  from assms(1) have "a = [] \<or> (\<exists>q. a = filepath_Clean q)"
    by (auto simp: filepath_Abs_def filepath_Join.simps split: if_splits option.splits)
  with assms(2) obtain q where q: "a = filepath_Clean q" by (auto simp: IsAbs_def)
  with assms(2) have "IsAbs q" using Clean_relative [of q] by auto
  from Clean_rooted_form [OF this] q show ?thesis by simp
qed

lemma intercalate_append:
  "xs \<noteq> [] \<Longrightarrow> ys \<noteq> [] \<Longrightarrow> intercalate sep (xs @ ys) = intercalate sep xs @ sep @ intercalate sep ys"
proof (induction sep xs rule: intercalate.induct)
  case (1 sep)
  then show ?case by simp
next
  case (2 sep x)
  then show ?case by (cases ys) simp_all
next
  case (3 sep x y ys')
  then show ?case by simp
qed

lemma nested_iff_components:
  assumes b: "\<forall>x\<in>set bs. normal_name x" and f: "\<forall>x\<in>set fs. normal_name x" and ne: "bs \<noteq> []"
  shows "(CHR ''/'' # intercalate ''/'' fs = CHR ''/'' # intercalate ''/'' bs \<or>
          prefix ((CHR ''/'' # intercalate ''/'' bs) @ ''/'') (CHR ''/'' # intercalate ''/'' fs))
         = prefix bs fs"
proof
  let ?B = "CHR ''/'' # intercalate ''/'' bs" and ?F = "CHR ''/'' # intercalate ''/'' fs"
  assume "?F = ?B \<or> prefix (?B @ ''/'') ?F"
  then show "prefix bs fs"
  proof
    assume "?F = ?B"
    then have "components ?F = components ?B" by simp
    then show ?thesis by (simp add: Clean_of_form(2) [OF b] Clean_of_form(2) [OF f])
  next
    assume "prefix (?B @ ''/'') ?F"
    then obtain r where "?F = ?B @ CHR ''/'' # r" by (auto simp: prefix_def)
    then have "components ?F = components ?B @ components r"
      by (simp only: components_append)
    then show ?thesis by (simp add: Clean_of_form(2) [OF b] Clean_of_form(2) [OF f])
  qed
next
  let ?B = "CHR ''/'' # intercalate ''/'' bs" and ?F = "CHR ''/'' # intercalate ''/'' fs"
  assume "prefix bs fs"
  then obtain r where r: "fs = bs @ r" by (auto simp: prefix_def)
  show "?F = ?B \<or> prefix (?B @ ''/'') ?F"
  proof (cases "r = []")
    case True
    with r show ?thesis by simp
  next
    case False
    with ne r have "intercalate ''/'' fs = intercalate ''/'' bs @ ''/'' @ intercalate ''/'' r"
      by (simp add: intercalate_append)
    then show ?thesis by (simp add: prefix_def)
  qed
qed

lemma intercalate_not_Nil:
  "out \<noteq> [] \<Longrightarrow> \<forall>x\<in>set out. x \<noteq> [] \<Longrightarrow> intercalate sep out \<noteq> []"
  by (induction sep out rule: intercalate.induct) auto

text \<open>
  The base directory of \<open>NewFSStore\<close> (line 85), \<open>filepath.Join(home, ".plexctl", "threads")\<close>,
  for an absolute home directory.
\<close>

lemma NewFSStore_base:
  assumes "IsAbs home"
  shows "clean_abs (filepath_Join [home, ''.plexctl'', ''threads''])"
proof -
  let ?p = "home @ CHR ''/'' # ''.plexctl'' @ CHR ''/'' # ''threads''"
  let ?out = "foldl (clean_step True) [] (components ?p)"
  from assms have h0: "home \<noteq> []" by (auto simp: IsAbs_def)
  then have j: "filepath_Join [home, ''.plexctl'', ''threads''] = filepath_Clean ?p"
    by (simp add: filepath_Join.simps)
  from assms have abs: "IsAbs ?p" by (auto simp: IsAbs_def prefix_def)
  have "components ?p = components home @ [''.plexctl'', ''threads'']"
    by (simp add: components_append) (simp add: components_def)
  then have "?out = foldl (clean_step True) (foldl (clean_step True) [] (components home))
                      [''.plexctl'', ''threads'']"
    by simp
  also have "\<dots> = foldl (clean_step True) [] (components home) @ [''.plexctl'', ''threads'']"
    by (rule foldl_clean_normal) (simp add: normal_name_def)
  finally have ne: "?out \<noteq> []" by simp
  have nm: "\<forall>x\<in>set ?out. normal_name x"
    by (rule foldl_clean_rooted_normal) (auto intro: components_nice)
  from abs have c: "filepath_Clean ?p = CHR ''/'' # intercalate ''/'' ?out"
    by (simp add: filepath_Clean_def Let_def)
  from nm have "\<forall>x\<in>set ?out. x \<noteq> []" by (auto simp: normal_name_def)
  with ne have "intercalate ''/'' ?out \<noteq> []" by (rule intercalate_not_Nil)
  with c have nr: "filepath_Clean ?p \<noteq> ''/''" by simp
  from c have ia: "IsAbs (filepath_Clean ?p)" by (simp add: IsAbs_def)
  from c Clean_of_form(1) [OF nm] have "filepath_Clean (filepath_Clean ?p) = filepath_Clean ?p"
    by simp
  with ia nr show ?thesis unfolding j by (simp add: clean_abs_def)
qed


lemma Abs_IsAbs: "IsAbs p \<Longrightarrow> filepath_Abs wd p = Inr (filepath_Clean p)"
  by (simp add: filepath_Abs_def)

lemma checkPath_absolute:
  "IsAbs b \<Longrightarrow> IsAbs f \<Longrightarrow> checkPath wd b f = checkPath None b f"
  by (simp add: checkPath_def Abs_IsAbs)


text \<open>
  The path of an entry of the base directory, for any base directory: absolute or relative,
  cleaned or not.
\<close>

lemma clean_step_elems:
  assumes "\<forall>x\<in>set out. P x" and "c \<noteq> ''.'' \<Longrightarrow> P c"
  shows "\<forall>x\<in>set (clean_step r out c). P x"
proof -
  have "set (butlast out) \<subseteq> set out" by (auto dest: in_set_butlastD)
  with assms show ?thesis unfolding clean_step_def by auto
qed

lemma foldl_clean_elems:
  "\<forall>c\<in>set cs. nice_name c \<Longrightarrow> \<forall>x\<in>set out. nice_name x \<and> x \<noteq> ''.'' \<Longrightarrow>
   \<forall>x\<in>set (foldl (clean_step r) out cs). nice_name x \<and> x \<noteq> ''.''"
proof (induction cs arbitrary: out)
  case Nil
  then show ?case by simp
next
  case (Cons c cs)
  from Cons.prems have "\<forall>x\<in>set (clean_step r out c). nice_name x \<and> x \<noteq> ''.''"
    by (intro clean_step_elems) simp_all
  moreover from Cons.prems have "\<forall>c\<in>set cs. nice_name c" by simp
  ultimately have "\<forall>x\<in>set (foldl (clean_step r) (clean_step r out c) cs).
      nice_name x \<and> x \<noteq> ''.''"
    by (intro Cons.IH)
  then show ?case by simp
qed

lemma Clean_not_Nil: "filepath_Clean p \<noteq> []"
proof -
  let ?out = "foldl (clean_step (IsAbs p)) [] (components p)"
  have "\<forall>x\<in>set ?out. nice_name x \<and> x \<noteq> ''.''"
    by (rule foldl_clean_elems) (auto intro: components_nice)
  then have "\<forall>x\<in>set ?out. x \<noteq> []" by (auto simp: nice_name_def)
  then have "?out \<noteq> [] \<Longrightarrow> intercalate ''/'' ?out \<noteq> []" by (rule intercalate_not_Nil [rotated])
  then show ?thesis by (auto simp: filepath_Clean_def Let_def)
qed

lemma Join2: "d \<noteq> [] \<Longrightarrow> filepath_Join [d, p] = filepath_Clean (d @ CHR ''/'' # p)"
  by (simp add: filepath_Join.simps)

lemma Join1: "filepath_Join [[], p] = (if p = [] then [] else filepath_Clean p)"
  by (simp add: filepath_Join.simps)

lemma IsAbs_append: "d \<noteq> [] \<Longrightarrow> IsAbs (d @ r) = IsAbs d"
  by (cases d) (auto simp: IsAbs_def)

lemma clean_step_absorb:
  assumes "\<forall>x\<in>set out. nice_name x \<and> x \<noteq> ''.''"
  shows "foldl (clean_step r) acc (clean_step False out c)
           = clean_step r (foldl (clean_step r) acc out) c"
proof (cases "c = ''..'' \<and> out \<noteq> [] \<and> last out \<noteq> ''..''")
  case False
  then have "clean_step False out c = (if c = ''.'' then out else out @ [c])"
    by (auto simp: clean_step_def)
  then show ?thesis by (simp add: clean_step_def)
next
  case True
  then obtain out' n where out: "out = out' @ [n]" and n: "n \<noteq> ''..''"
    by (cases out rule: rev_cases) auto
  with assms have "n \<noteq> ''.''" by simp
  with n have "foldl (clean_step r) acc out = foldl (clean_step r) acc out' @ [n]"
    unfolding out by (simp add: clean_step_def)
  with True n out show ?thesis by (simp add: clean_step_def)
qed

lemma foldl_clean_rel_absorb:
  assumes "\<forall>c\<in>set cs. nice_name c"
  shows "foldl (clean_step r) acc (foldl (clean_step False) [] cs) = foldl (clean_step r) acc cs"
  using assms
proof (induction cs rule: rev_induct)
  case Nil
  then show ?case by simp
next
  case (snoc c cs)
  from snoc.prems have nice: "\<forall>c\<in>set cs. nice_name c" by simp
  then have "\<forall>x\<in>set (foldl (clean_step False) [] cs). nice_name x \<and> x \<noteq> ''.''"
    by (rule foldl_clean_elems) simp
  from clean_step_absorb [OF this] snoc.IH [OF nice] show ?case by simp
qed

text \<open>A relative path joined to a name: the elements of the result.\<close>

lemma Join_relative_child:
  assumes rel: "\<not> IsAbs base" and nn: "normal_name name"
  shows "\<exists>N. components (filepath_Join [base, name]) = N @ [name] \<and>
             \<not> IsAbs (filepath_Join [base, name]) \<and>
             (\<forall>r acc. foldl (clean_step r) acc N = foldl (clean_step r) acc (components base))"
proof (cases "base = []")
  case True
  from nn have ns: "CHR ''/'' \<notin> set name" and n0: "name \<noteq> []"
    by (simp_all add: normal_name_def)
  then have c: "components name = [name]" by (simp add: components_def splitSep_no_sep)
  from ns n0 have ra: "\<not> IsAbs name" by (cases name) (auto simp: IsAbs_def)
  from nn have "foldl (clean_step False) [] [name] = [name]"
    by (simp add: clean_step_normal normal_name_def)
  with ra c have "filepath_Clean name = name" by (simp add: filepath_Clean_def Let_def)
  with True n0 have j: "filepath_Join [base, name] = name" by (simp add: Join1)
  have "components [] = []" by (simp add: components_def)
  with True j c ra show ?thesis by simp
next
  case False
  let ?p = "base @ CHR ''/'' # name"
  let ?N = "foldl (clean_step False) [] (components base)"
  from False have j: "filepath_Join [base, name] = filepath_Clean ?p" by (rule Join2)
  from rel False have rp: "\<not> IsAbs ?p" by (simp add: IsAbs_append)
  from nn have comps: "components ?p = components base @ [name]"
    by (simp add: components_append_sep normal_name_def)
  from nn have f: "foldl (clean_step False) [] (components base @ [name]) = ?N @ [name]"
    by (simp add: clean_step_normal normal_name_def)
  with rp comps have cl: "filepath_Clean ?p = intercalate ''/'' (?N @ [name])"
    by (simp add: filepath_Clean_def Let_def)
  have nice: "\<forall>c\<in>set (components base). nice_name c" by (auto intro: components_nice)
  then have "\<forall>x\<in>set ?N. nice_name x \<and> x \<noteq> ''.''" by (rule foldl_clean_elems) simp
  with nn have "\<forall>x\<in>set (?N @ [name]). nice_name x" by (auto intro: normal_nice)
  then have "components (intercalate ''/'' (?N @ [name])) = ?N @ [name]"
    by (rule components_intercalate)
  moreover from rp have "\<not> IsAbs (filepath_Clean ?p)" by (rule Clean_relative)
  moreover have "\<forall>r acc. foldl (clean_step r) acc ?N = foldl (clean_step r) acc (components base)"
    using foldl_clean_rel_absorb [OF nice] by simp
  ultimately show ?thesis unfolding j cl by blast
qed

text \<open>
  Cleaning a path whose elements are those of \<open>q0\<close> followed by a plain name: the cleaned
  \<open>q0\<close>, a separator and the name, but for the root and for \<open>.\<close>.
\<close>

lemma Clean_child_cases:
  assumes nn: "normal_name name"
    and ia: "IsAbs q = IsAbs q0"
    and f: "foldl (clean_step (IsAbs q0)) [] (components q)
              = foldl (clean_step (IsAbs q0)) [] (components q0) @ [name]"
  shows "filepath_Clean q = filepath_Clean q0 @ CHR ''/'' # name \<or>
         (filepath_Clean q = CHR ''/'' # name \<and> filepath_Clean q0 = ''/'') \<or>
         (filepath_Clean q = name \<and> filepath_Clean q0 = ''.'')"
proof -
  let ?out = "foldl (clean_step (IsAbs q0)) [] (components q0)"
  show ?thesis
  proof (cases "?out = []")
    case True
    with f ia show ?thesis by (simp add: filepath_Clean_def Let_def)
  next
    case False
    with f ia show ?thesis by (simp add: filepath_Clean_def Let_def intercalate_snoc)
  qed
qed

lemma Clean_IsAbs: "IsAbs p \<Longrightarrow> IsAbs (filepath_Clean p)"
  by (simp add: filepath_Clean_def Let_def IsAbs_def)

lemma Clean_Clean: "IsAbs p \<Longrightarrow> filepath_Clean (filepath_Clean p) = filepath_Clean p"
  using Clean_rooted_form [of p] Clean_of_form(1) by auto

lemma Abs_Join_child_cases:
  assumes ab: "filepath_Abs wd base = Inr b" and nn: "normal_name name"
  shows "(filepath_Abs wd (filepath_Join [base, name]) = Inr (b @ CHR ''/'' # name) \<and> b \<noteq> []) \<or>
         (filepath_Abs wd (filepath_Join [base, name]) = Inr (CHR ''/'' # name) \<and> b = ''/'') \<or>
         (filepath_Abs wd (filepath_Join [base, name]) = Inr name \<and> (b = ''.'' \<or> b = []))"
proof (cases "IsAbs base")
  case True
  then have b0: "base \<noteq> []" by (auto simp: IsAbs_def)
  let ?q = "base @ CHR ''/'' # name"
  from True ab have b: "b = filepath_Clean base" by (simp add: filepath_Abs_def)
  from b0 have j: "filepath_Join [base, name] = filepath_Clean ?q" by (rule Join2)
  from b0 True have aq: "IsAbs ?q" by (simp add: IsAbs_append)
  then have "filepath_Abs wd (filepath_Clean ?q) = Inr (filepath_Clean ?q)"
    by (simp add: filepath_Abs_def Clean_IsAbs Clean_Clean)
  moreover have "filepath_Clean ?q = filepath_Clean base @ CHR ''/'' # name \<or>
         (filepath_Clean ?q = CHR ''/'' # name \<and> filepath_Clean base = ''/'') \<or>
         (filepath_Clean ?q = name \<and> filepath_Clean base = ''.'')"
  proof (rule Clean_child_cases [OF nn])
    from aq True show "IsAbs ?q = IsAbs base" by simp
    from nn show "foldl (clean_step (IsAbs base)) [] (components ?q)
        = foldl (clean_step (IsAbs base)) [] (components base) @ [name]"
      by (simp add: components_append_sep normal_name_def clean_step_normal)
  qed
  ultimately show ?thesis unfolding j b using Clean_not_Nil [of base] by auto
next
  case False
  from Join_relative_child [OF False nn] obtain N where
    cN: "components (filepath_Join [base, name]) = N @ [name]"
    and rel: "\<not> IsAbs (filepath_Join [base, name])"
    and fN: "\<forall>r acc. foldl (clean_step r) acc N = foldl (clean_step r) acc (components base)"
    by blast
  let ?P = "filepath_Join [base, name]"
  from False ab obtain d where d: "wd = Some d" and bj: "b = filepath_Join [d, base]"
    by (auto simp: filepath_Abs_def split: option.splits)
  from rel d have aP: "filepath_Abs wd ?P = Inr (filepath_Join [d, ?P])"
    by (simp add: filepath_Abs_def)
  have P0: "?P \<noteq> []"
  proof
    assume "?P = []"
    then have "components ?P = []" by (simp add: components_def)
    with cN show False by simp
  qed
  show ?thesis
  proof (cases "d = []")
    case d0: True
    show ?thesis
    proof (cases "base = []")
      case True
      from nn have ns: "CHR ''/'' \<notin> set name" and n0: "name \<noteq> []"
        by (simp_all add: normal_name_def)
      then have c: "components name = [name]" by (simp add: components_def splitSep_no_sep)
      from ns n0 have ra: "\<not> IsAbs name" by (cases name) (auto simp: IsAbs_def)
      from nn have "foldl (clean_step False) [] [name] = [name]"
        by (simp add: clean_step_normal normal_name_def)
      with ra c have cn: "filepath_Clean name = name" by (simp add: filepath_Clean_def Let_def)
      with True n0 have "?P = name" by (simp add: Join1)
      with aP d0 n0 cn have "filepath_Abs wd ?P = Inr name" by (simp add: Join1)
      moreover from bj d0 True have "b = []" by (simp add: Join1)
      ultimately show ?thesis by simp
    next
      case b0: False
      from bj d0 b0 have b: "b = filepath_Clean base" by (simp add: Join1)
      from aP d0 P0 have a: "filepath_Abs wd ?P = Inr (filepath_Clean ?P)" by (simp add: Join1)
      have "filepath_Clean ?P = filepath_Clean base @ CHR ''/'' # name \<or>
         (filepath_Clean ?P = CHR ''/'' # name \<and> filepath_Clean base = ''/'') \<or>
         (filepath_Clean ?P = name \<and> filepath_Clean base = ''.'')"
      proof (rule Clean_child_cases [OF nn])
        from rel False show "IsAbs ?P = IsAbs base" by simp
        from nn fN show "foldl (clean_step (IsAbs base)) [] (components ?P)
            = foldl (clean_step (IsAbs base)) [] (components base) @ [name]"
          by (simp add: cN clean_step_normal normal_name_def)
      qed
      with a b show ?thesis using Clean_not_Nil [of base] by auto
    qed
  next
    case d0: False
    let ?qb = "d @ CHR ''/'' # base" and ?q = "d @ CHR ''/'' # ?P"
    from bj d0 have b: "b = filepath_Clean ?qb" by (simp add: Join2)
    from aP d0 have a: "filepath_Abs wd ?P = Inr (filepath_Clean ?q)" by (simp add: Join2)
    have "filepath_Clean ?q = filepath_Clean ?qb @ CHR ''/'' # name \<or>
         (filepath_Clean ?q = CHR ''/'' # name \<and> filepath_Clean ?qb = ''/'') \<or>
         (filepath_Clean ?q = name \<and> filepath_Clean ?qb = ''.'')"
    proof (rule Clean_child_cases [OF nn])
      from d0 show "IsAbs ?q = IsAbs ?qb" by (simp add: IsAbs_append)
      from nn fN show "foldl (clean_step (IsAbs ?qb)) [] (components ?q)
          = foldl (clean_step (IsAbs ?qb)) [] (components ?qb) @ [name]"
        by (simp add: components_append cN clean_step_normal normal_name_def)
    qed
    with a b show ?thesis using Clean_not_Nil [of ?qb] by auto
  qed
qed

lemma name_not_rooted: "normal_name name \<Longrightarrow> \<not> prefix (s @ ''/'') name"
  by (auto simp: normal_name_def prefix_def)

lemma checkPath_Join_child_Inr:
  assumes ab: "filepath_Abs wd base = Inr b" and nn: "normal_name name"
    and cp: "checkPath wd base (filepath_Join [base, name]) = Inr absFile"
  shows "absFile = b @ CHR ''/'' # name \<and> b \<noteq> []"
proof -
  from nn have n0: "name \<noteq> []" and n1: "name \<noteq> ''.''" and ns: "CHR ''/'' \<notin> set name"
    by (simp_all add: normal_name_def)
  from Abs_Join_child_cases [OF ab nn]
  consider (child) "filepath_Abs wd (filepath_Join [base, name]) = Inr (b @ CHR ''/'' # name)" "b \<noteq> []"
    | (root) "filepath_Abs wd (filepath_Join [base, name]) = Inr (CHR ''/'' # name)" "b = ''/''"
    | (dot) "filepath_Abs wd (filepath_Join [base, name]) = Inr name" "b = ''.'' \<or> b = []"
    by blast
  then show ?thesis
  proof cases
    case child
    with cp ab show ?thesis by (auto simp: checkPath_def split: if_splits)
  next
    case root
    from ns n0 have "\<not> prefix ''//'' (CHR ''/'' # name)" by (cases name) auto
    with root cp ab n0 show ?thesis by (auto simp: checkPath_def split: if_splits)
  next
    case dot
    from name_not_rooted [OF nn, of b] have "\<not> prefix (b @ ''/'') name" .
    with dot cp ab n0 n1 show ?thesis by (auto simp: checkPath_def split: if_splits)
  qed
qed


lemma Save_Load:
  assumes save: "Save L os fs th = Inr os'"
    and enc: "json_MarshalIndent_Thread L th = Some data"
    and dec: "json_Unmarshal_Thread L data = Some th"
    and rd: "os_ReadDir os (basePath fs) = Inr entries"
    and id: "CHR ''/'' \<notin> set (ID th)"
    and uniq: "\<forall>n\<in>set entries. prefix (ID th) n \<longrightarrow> n = ID th @ ''.json''"
  shows "Load L os' fs (ID th) = Inr th"
proof -
  let ?name = "ID th @ ''.json''"
  let ?file = "filepath_Join [basePath fs, ?name]"
  from id have nn: "normal_name ?name" by (rule normal_name_json)
  from Save_writes [OF save] enc obtain absFile where
    cp: "checkPath (cwd os) (basePath fs) ?file = Inr absFile"
    and os': "os' = os\<lparr>files := AList.update absFile data (files os)\<rparr>"
    and rf: "os_ReadFile os' absFile = Inr data"
    by auto
  from os_ReadDir_Inr [OF rd] obtain b where ab: "filepath_Abs (cwd os) (basePath fs) = Inr b"
    by blast
  from checkPath_Join_child_Inr [OF ab nn cp]
  have k: "absFile = b @ CHR ''/'' # ?name" and b0: "b \<noteq> []" by simp_all
  from os_ReadDir_after_write [OF rd ab b0 nn, of data] os' k
  obtain entries' where rd': "os_ReadDir os' (basePath fs) = Inr entries'"
    and se: "set entries' = insert ?name (set entries)"
    and de: "distinct entries'" by auto
  from uniq se have u: "\<forall>x\<in>set entries'. prefix (ID th) x \<longrightarrow> x = ?name" by auto
  have f: "filter (prefix (ID th)) entries' = [?name]"
    by (rule filter_single [OF de _ _ u]) (simp_all add: se)
  have ne: "[] \<notin> set entries'" by (rule os_ReadDir_no_empty [OF rd'])
  have ll: "Load_loop (ID th) entries' [] = Inr ?name"
    by (simp add: Load_loop_filter [OF ne] f)
  from os' have "cwd os' = cwd os" by simp
  with cp rf have "safeReadFile os' (basePath fs) ?file = Inr data"
    by (simp add: safeReadFile_def)
  then show ?thesis by (simp add: Load_def rd' ll dec)
qed

lemma rooted_not_double_sep:
  assumes "\<forall>x\<in>set fs. normal_name x"
  shows "\<not> prefix ''//'' (CHR ''/'' # intercalate ''/'' fs)"
proof (cases fs)
  case Nil
  then show ?thesis by simp
next
  case (Cons x xs)
  with assms have "normal_name x" by simp
  then obtain c cs where x: "x = c # cs" and c: "c \<noteq> CHR ''/''"
    by (cases x) (auto simp: normal_name_def)
  then have "\<exists>r. intercalate ''/'' (x # xs) = c # r" by (cases xs) simp_all
  with c Cons show ?thesis by auto
qed

section \<open>Lemmas on the Paced Emitter\<close>

lemma emitter_inv_init: "emitter_inv xs (emitter_init xs)"
  by (simp add: emitter_inv_def emitter_init_def)

lemma emitter_inv_act:
  assumes "emitter_inv xs s" and "act a s = Some s'"
  shows "emitter_inv xs s'"
proof (cases a)
  case Producer
  with assms show ?thesis
    by (auto simp: emitter_inv_def split: producer_pc.splits list.splits if_splits)
next
  case Consumer
  with assms show ?thesis
    by (auto simp: emitter_inv_def split: consumer_pc.splits list.splits if_splits)
qed

lemma emitter_inv_run: "emitter_inv xs s \<Longrightarrow> emitter_inv xs (run sched s)"
proof (induction sched arbitrary: s)
  case Nil
  then show ?case by simp
next
  case (Cons a sched)
  then show ?case
    by (cases "act a s") (auto intro: emitter_inv_act)
qed

lemma emitter_measure_act: "act a s = Some s' \<Longrightarrow> emitter_measure s' < emitter_measure s"
proof (cases a)
  case Producer
  assume "act a s = Some s'"
  with Producer show ?thesis
    by (auto simp: emitter_measure_def split: producer_pc.splits list.splits if_splits consumer_pc.splits)
next
  case Consumer
  assume "act a s = Some s'"
  with Consumer show ?thesis
    by (auto simp: emitter_measure_def split: producer_pc.splits list.splits if_splits consumer_pc.splits)
qed

lemma emitter_no_deadlock:
  assumes "emitter_inv xs s" and "act Producer s = None" and "act Consumer s = None"
  shows "producer s = Returned"
  using assms
  by (auto simp: emitter_inv_def smoothPrintBufferSize_def
           split: producer_pc.splits consumer_pc.splits list.splits if_splits)

lemma run_append: "run (a @ b) s = run b (run a s)"
  by (induction a arbitrary: s) (auto split: option.splits)

lemma run_Returned:
  assumes "emitter_inv xs s" and "producer s = Returned"
  shows "run sched s = s"
proof (induction sched)
  case Nil
  then show ?case by simp
next
  case (Cons a sched)
  from assms have "consumer s = Exited" by (simp add: emitter_inv_def)
  with assms(2) have "act a s = None" by (cases a) simp_all
  with Cons show ?case by simp
qed

lemma round_progress:
  assumes inv: "emitter_inv xs s" and nr: "producer s \<noteq> Returned"
  shows "emitter_measure (run [Producer, Consumer] s) < emitter_measure s"
proof (cases "act Producer s")
  case None
  have "act Consumer s \<noteq> None"
  proof
    assume "act Consumer s = None"
    with None have "producer s = Returned" by (rule emitter_no_deadlock [OF inv])
    with nr show False by simp
  qed
  then obtain s' where c: "act Consumer s = Some s'" by auto
  then have "emitter_measure s' < emitter_measure s" by (rule emitter_measure_act)
  with None c show ?thesis by simp
next
  case (Some s1)
  then have m1: "emitter_measure s1 < emitter_measure s" by (rule emitter_measure_act)
  show ?thesis
  proof (cases "act Consumer s1")
    case None
    with Some m1 show ?thesis by simp
  next
    case (Some s2)
    then have "emitter_measure s2 < emitter_measure s1" by (rule emitter_measure_act)
    with \<open>act Producer s = Some s1\<close> Some m1 show ?thesis by simp
  qed
qed

lemma round_robin_returns:
  "emitter_inv xs s \<Longrightarrow> emitter_measure s \<le> n \<Longrightarrow> producer (run (round_robin n) s) = Returned"
proof (induction n arbitrary: s)
  case 0
  then have "emitter_measure s = 0" by simp
  then have "producer s = Returned"
    by (cases "producer s") (simp_all add: emitter_measure_def)
  then show ?case by (simp add: round_robin_def)
next
  case (Suc n)
  have rr: "round_robin (Suc n) = [Producer, Consumer] @ round_robin n"
    by (simp add: round_robin_def)
  show ?case
  proof (cases "producer s = Returned")
    case True
    with Suc.prems(1) show ?thesis by (simp add: run_Returned)
  next
    case False
    let ?s' = "run [Producer, Consumer] s"
    from Suc.prems(1) have inv': "emitter_inv xs ?s'" by (rule emitter_inv_run)
    from round_progress [OF Suc.prems(1) False] Suc.prems(2)
    have "emitter_measure ?s' \<le> n" by simp
    with inv' have "producer (run (round_robin n) ?s') = Returned" by (rule Suc.IH)
    then show ?thesis unfolding rr run_append .
  qed
qed

section \<open>The claims\<close>

subsection \<open>C1: reassembly of a fragmented record\<close>




subsection \<open>C2: the finish indicator does not end the call\<close>

text \<open>
  C2 as stated fails: \<open>processSSEChunk\<close> decodes \<open>finish_reason\<close> and never reads it. A frame
  whose chunk has \<open>finish_reason\<close> \<open>stop\<close> leaves the loop of \<open>readSSE\<close> running, and the
  content of a later frame is still appended; the call returns at the end of the transport.
\<close>

theorem finish_flag_counterexample:
  \<open>json_Unmarshal_sseChunk go_lib ''{"choices":[{"delta":{"content":"x"},"finish_reason":"stop"}]}''
     = Some \<lparr>Choices = [\<lparr>Delta = \<lparr>DeltaContent = ''x''\<rparr>, FinishReason = ''stop''\<rparr>], Citations = []\<rparr> \<and>
   readSSE go_lib
     [(''data: {"choices":[{"delta":{"content":"x"},"finish_reason":"stop"}]}'', None)] = None \<and>
   readSSE go_lib
     [(''data: {"choices":[{"delta":{"content":"x"},"finish_reason":"stop"}]}'', None),
      (''data: {"choices":[{"delta":{"content":"y"}}]}'', None),
      ([], Some EOF)]
     = Some (\<lparr>buf = [], final = ''xy'', finalCitations = [], charCh = [120, 121]\<rparr>, Inr (''xy'', []))\<close>
  by code_simp


text \<open>
  C2, amended. \<open>readSSE\<close> returns on a sequence of events exactly when one of them is the end
  of the transport (the read error \<open>io.EOF\<close>), a read failure (any other read error) or a
  frame that contains the sentinel \<open>[DONE]\<close>. It returns at the first such event, in the
  state the frames before it have left: a read failure returns the error, the end of the
  transport and the sentinel return the text and the citations accumulated. What the chunks
  decode to, the finish indicator included, plays no part.
\<close>

theorem readSSE_returns_iff:
  "((readSSE L evs \<noteq> None) =
      (\<exists>raw err. (raw, err) \<in> set evs \<and>
         (err = Some EOF \<or> err = Some ReadFailure \<or> bytes_Contains raw ''[DONE]''))) \<and>
   (\<forall>pre raw err rest.
      evs = pre @ (raw, err) # rest \<and>
      list_all (\<lambda>e. snd e = None \<and> \<not> bytes_Contains (fst e) ''[DONE]'') pre \<and>
      (err = Some EOF \<or> err = Some ReadFailure \<or> bytes_Contains raw ''[DONE]'') \<longrightarrow>
      readSSE L evs =
        Some (process_all L init_state (map fst pre),
              if err = Some ReadFailure then Inl SSERead
              else Inr (final (process_all L init_state (map fst pre)),
                        finalCitations (process_all L init_state (map fst pre)))))"
proof (intro conjI allI impI)
  have ex: "(\<exists>raw err. (raw, err) \<in> set evs \<and>
         (err = Some EOF \<or> err = Some ReadFailure \<or> bytes_Contains raw ''[DONE]''))
       = (\<exists>e\<in>set evs. terminal e)"
    by (auto simp: terminal_explicit [symmetric])
  show "(readSSE L evs \<noteq> None) =
      (\<exists>raw err. (raw, err) \<in> set evs \<and>
         (err = Some EOF \<or> err = Some ReadFailure \<or> bytes_Contains raw ''[DONE]''))"
    unfolding ex
  proof
    assume ret: "readSSE L evs \<noteq> None"
    show "\<exists>e\<in>set evs. terminal e"
    proof (rule ccontr)
      assume "\<not> (\<exists>e\<in>set evs. terminal e)"
      then have "\<forall>e\<in>set evs. \<not> terminal e" by simp
      then have "readSSE_loop L init_state evs = None" by (rule readSSE_loop_none)
      with ret show False by (simp add: readSSE_def)
    qed
  next
    assume "\<exists>e\<in>set evs. terminal e"
    then obtain pre e rest where evs: "evs = pre @ e # rest" and pre: "\<forall>x\<in>set pre. \<not> terminal x"
      and e: "terminal e"
      by (metis split_list_first_prop)
    obtain raw err where "e = (raw, err)" by (cases e)
    with e evs pre show "readSSE L evs \<noteq> None"
      unfolding readSSE_def
      by (simp only: readSSE_loop_skip [OF pre] readSSE_loop_terminal not_False_eq_True)
  qed
next
  fix pre raw err rest
  assume a: "evs = pre @ (raw, err) # rest \<and>
      list_all (\<lambda>e. snd e = None \<and> \<not> bytes_Contains (fst e) ''[DONE]'') pre \<and>
      (err = Some EOF \<or> err = Some ReadFailure \<or> bytes_Contains raw ''[DONE]'')"
  have pre: "\<forall>e\<in>set pre. \<not> terminal e"
  proof
    fix e
    assume "e \<in> set pre"
    with a have "snd e = None \<and> \<not> bytes_Contains (fst e) ''[DONE]''" by (simp add: list_all_iff)
    then show "\<not> terminal e" by (cases e) (simp add: terminal_explicit)
  qed
  let ?st = "process_all L init_state (map fst pre)"
  from a have "checkEventEnd raw err
      = (True, if err = Some ReadFailure then Some SSERead else None)"
  proof (cases err)
    case None
    with a show ?thesis by (simp add: checkEventEnd_def)
  next
    case (Some x)
    then show ?thesis by (cases x) (simp_all add: checkEventEnd_def)
  qed
  then have "readSSE_loop L ?st ((raw, err) # rest)
      = Some (?st, if err = Some ReadFailure then Inl SSERead
                   else Inr (final ?st, finalCitations ?st))"
    by simp
  with a show "readSSE L evs =
        Some (?st, if err = Some ReadFailure then Inl SSERead
                   else Inr (final ?st, finalCitations ?st))"
    unfolding readSSE_def by (simp only: readSSE_loop_skip [OF pre])
qed

theorem readSSE_returns_iff_witness:
  \<open>readSSE go_lib
      [(''data: {"choices":[{"delta":{"content":"x"},"finish_reason":"stop"}]}'', None)] = None \<and>
   readSSE go_lib
      [(''data: {"choices":[{"delta":{"content":"x"},"finish_reason":"stop"}]}'', None),
       ([], Some EOF)]
     = Some (\<lparr>buf = [], final = ''x'', finalCitations = [], charCh = [120]\<rparr>, Inr (''x'', [])) \<and>
   readSSE go_lib
      [(''data: {"choices":[{"delta":{"content":"x"},"finish_reason":"stop"}]}'', None),
       (''data: [DONE]'', None),
       (''data: {"choices":[{"delta":{"content":"y"}}]}'', None)]
     = Some (\<lparr>buf = [], final = ''x'', finalCitations = [], charCh = [120]\<rparr>, Inr (''x'', [])) \<and>
   readSSE go_lib
      [(''data: {"choices":[{"delta":{"content":"x"},"finish_reason":"stop"}]}'', None),
       ([], Some ReadFailure)]
     = Some (\<lparr>buf = [], final = ''x'', finalCitations = [], charCh = [120]\<rparr>, Inl SSERead)\<close>
proof -
  let ?r = \<open>''data: {"choices":[{"delta":{"content":"x"},"finish_reason":"stop"}]}''\<close>
  let ?f = "(?r, None :: read_err option)"
  let ?g = \<open>(''data: {"choices":[{"delta":{"content":"y"}}]}'', None :: read_err option)\<close>
  let ?st = "\<lparr>buf = [], final = ''x'', finalCitations = [], charCh = [120]\<rparr>"
  have nb: "\<not> bytes_Contains ?r ''[DONE]''" by code_simp
  have d: "bytes_Contains ''data: [DONE]'' ''[DONE]''" by code_simp
  have la: "list_all (\<lambda>e. snd e = None \<and> \<not> bytes_Contains (fst e) ''[DONE]'') [?f]"
    using nb by simp
  have ev: "process_all go_lib init_state (map fst [?f]) = ?st" by code_simp
  have "\<not> (\<exists>raw err. (raw, err) \<in> set [?f] \<and>
         (err = Some EOF \<or> err = Some ReadFailure \<or> bytes_Contains raw ''[DONE]''))"
    using nb by auto
  with readSSE_returns_iff [of go_lib "[?f]"] have r0: "readSSE go_lib [?f] = None" by blast
  have r1: "readSSE go_lib [?f, ([], Some EOF)] = Some (?st, Inr (''x'', []))"
    using readSSE_returns_iff [of go_lib "[?f, ([], Some EOF)]", THEN conjunct2, rule_format,
        of "[?f]" "[]" "Some EOF" "[]"] la
    unfolding ev by simp
  have r2: "readSSE go_lib [?f, (''data: [DONE]'', None), ?g] = Some (?st, Inr (''x'', []))"
    using readSSE_returns_iff [of go_lib "[?f, (''data: [DONE]'', None), ?g]", THEN conjunct2,
        rule_format, of "[?f]" "''data: [DONE]''" None "[?g]"] la d
    unfolding ev by simp
  have r3: "readSSE go_lib [?f, ([], Some ReadFailure)] = Some (?st, Inl SSERead)"
    using readSSE_returns_iff [of go_lib "[?f, ([], Some ReadFailure)]", THEN conjunct2,
        rule_format, of "[?f]" "[]" "Some ReadFailure" "[]"] la
    unfolding ev by simp
  from r0 r1 r2 r3 show ?thesis by blast
qed

subsection \<open>C3: Load by prefix\<close>

text \<open>
  C3 as stated fails: \<open>Load\<close> matches the prefix with the names of the directory entries,
  which are the identifiers followed by \<open>.json\<close>, not with the identifiers. With the
  conversations \<open>xyw\<close> and \<open>xyz\<close> stored, the prefix \<open>xyz.j\<close> matches no identifier, and
  \<open>Load\<close> returns the conversation \<open>xyz\<close> instead of the not-found error.
\<close>

theorem Load_identifier_counterexample:
  \<open>os_ReadDir example_os (basePath example_store) = Inr [''xyw.json'', ''xyz.json''] \<and>
   Load go_lib example_os example_store ''xyz''
     = Inr \<lparr>ID = ''xyz'', Messages = [\<lparr>Role = ''user'', Content = ''hi''\<rparr>,
                                       \<lparr>Role = ''assistant'', Content = ''Hello''\<rparr>]\<rparr> \<and>
   Load go_lib example_os example_store ''xyw''
     = Inr \<lparr>ID = ''xyw'', Messages = [\<lparr>Role = ''user'', Content = ''yo''\<rparr>]\<rparr> \<and>
   filter (prefix ''xyz.j'') [''xyw'', ''xyz''] = [] \<and>
   Load go_lib example_os example_store ''xyz.j''
     = Inr \<lparr>ID = ''xyz'', Messages = [\<lparr>Role = ''user'', Content = ''hi''\<rparr>,
                                       \<lparr>Role = ''assistant'', Content = ''Hello''\<rparr>]\<rparr>\<close>
  by code_simp

text \<open>
  C3, amended. Let the base directory be readable, with the entries \<open>entries\<close>. When no entry
  name starts with the prefix, \<open>Load\<close> returns the not-found error. When exactly one does,
  \<open>Load\<close> reads that entry through the path check and decodes it, a failure of either
  being returned as the error; for a cleaned absolute base other than the root and an entry
  that is a file, the result is the decoded conversation or the decode error. When two or
  more do, \<open>Load\<close> returns the ambiguous-prefix error and no conversation.
\<close>

theorem Load_by_entry_name:
  assumes "os_ReadDir os (basePath fs) = Inr entries"
  shows "(filter (prefix p) entries = [] \<longrightarrow> Load L os fs p = Inl NotFound) \<and>
         (\<forall>m. filter (prefix p) entries = [m] \<longrightarrow>
            Load L os fs p =
              (case safeReadFile os (basePath fs) (filepath_Join [basePath fs, m]) of
                 Inl err \<Rightarrow> Inl err
               | Inr data \<Rightarrow>
                  (case json_Unmarshal_Thread L data of
                     None \<Rightarrow> Inl JSONError
                   | Some th \<Rightarrow> Inr th)) \<and>
            (\<forall>data. clean_abs (basePath fs) \<and>
                    map_of (files os) (basePath fs @ ''/'' @ m) = Some data \<longrightarrow>
               Load L os fs p =
                 (case json_Unmarshal_Thread L data of None \<Rightarrow> Inl JSONError | Some th \<Rightarrow> Inr th))) \<and>
         (2 \<le> length (filter (prefix p) entries) \<longrightarrow> Load L os fs p = Inl (AmbiguousPrefix p))"
proof (intro conjI impI allI)
  have ne: "[] \<notin> set entries" by (rule os_ReadDir_no_empty [OF assms])
  note ll = Load_loop_filter [OF ne, of p "[]"]
  {
    assume "filter (prefix p) entries = []"
    then show "Load L os fs p = Inl NotFound"
      by (simp add: Load_def assms ll)
  next
    fix m
    assume m: "filter (prefix p) entries = [m]"
    then have "m \<in> set (filter (prefix p) entries)" by simp
    then have mi: "m \<in> set entries" by simp
    with ne have m0: "m \<noteq> []" by auto
    from m m0 show l: "Load L os fs p =
              (case safeReadFile os (basePath fs) (filepath_Join [basePath fs, m]) of
                 Inl err \<Rightarrow> Inl err
               | Inr data \<Rightarrow>
                  (case json_Unmarshal_Thread L data of
                     None \<Rightarrow> Inl JSONError
                   | Some th \<Rightarrow> Inr th))"
      by (simp add: Load_def assms ll)
    fix data
    assume a: "clean_abs (basePath fs) \<and> map_of (files os) (basePath fs @ ''/'' @ m) = Some data"
    from os_ReadDir_normal [OF assms mi] have nn: "normal_name m" .
    from a have "safeReadFile os (basePath fs) (filepath_Join [basePath fs, m]) = Inr data"
      using checkPath_child [OF _ nn, of "basePath fs" "cwd os"]
      by (simp add: safeReadFile_def os_ReadFile_def)
    with l show "Load L os fs p =
        (case json_Unmarshal_Thread L data of None \<Rightarrow> Inl JSONError | Some th \<Rightarrow> Inr th)"
      by simp
  next
    assume "2 \<le> length (filter (prefix p) entries)"
    then have "filter (prefix p) entries \<noteq> []" and "tl (filter (prefix p) entries) \<noteq> []"
      by (cases "filter (prefix p) entries"; auto)+
    then show "Load L os fs p = Inl (AmbiguousPrefix p)"
      by (simp add: Load_def assms ll)
  }
qed

theorem Load_by_entry_name_witness:
  \<open>os_ReadDir example_os (basePath example_store) = Inr [''xyw.json'', ''xyz.json''] \<and>
   filter (prefix ''q'') [''xyw.json'', ''xyz.json''] = [] \<and>
   Load go_lib example_os example_store ''q'' = Inl NotFound \<and>
   filter (prefix ''xyz'') [''xyw.json'', ''xyz.json''] = [''xyz.json''] \<and>
   clean_abs (basePath example_store) \<and>
   Load go_lib example_os example_store ''xyz''
     = Inr \<lparr>ID = ''xyz'', Messages = [\<lparr>Role = ''user'', Content = ''hi''\<rparr>,
                                       \<lparr>Role = ''assistant'', Content = ''Hello''\<rparr>]\<rparr> \<and>
   2 \<le> length (filter (prefix ''xy'') [''xyw.json'', ''xyz.json'']) \<and>
   Load go_lib example_os example_store ''xy'' = Inl (AmbiguousPrefix ''xy'')\<close>
proof -
  let ?es = \<open>[''xyw.json'', ''xyz.json'']\<close>
  let ?d = \<open>''{"id":"xyz","messages":[{"role":"user","content":"hi"},{"role":"assistant","content":"Hello"}]}''\<close>
  have rd: "os_ReadDir example_os (basePath example_store) = Inr ?es" by code_simp
  have f0: "filter (prefix ''q'') ?es = []" by code_simp
  have f1: "filter (prefix ''xyz'') ?es = [''xyz.json'']" by code_simp
  have f2: "2 \<le> length (filter (prefix ''xy'') ?es)" by code_simp
  have ca: "clean_abs (basePath example_store)" by code_simp
  have mo: "map_of (files example_os) (basePath example_store @ ''/'' @ ''xyz.json'') = Some ?d"
    by code_simp
  have de: "json_Unmarshal_Thread go_lib ?d
     = Some \<lparr>ID = ''xyz'', Messages = [\<lparr>Role = ''user'', Content = ''hi''\<rparr>,
                                       \<lparr>Role = ''assistant'', Content = ''Hello''\<rparr>]\<rparr>"
    by code_simp
  from Load_by_entry_name [OF rd, of "''q''" go_lib] f0
  have a: "Load go_lib example_os example_store ''q'' = Inl NotFound" by blast
  from Load_by_entry_name [OF rd, of "''xyz''" go_lib] f1 ca mo
  have "Load go_lib example_os example_store ''xyz''
     = (case json_Unmarshal_Thread go_lib ?d of None \<Rightarrow> Inl JSONError | Some th \<Rightarrow> Inr th)"
    by blast
  then have b: "Load go_lib example_os example_store ''xyz''
     = Inr \<lparr>ID = ''xyz'', Messages = [\<lparr>Role = ''user'', Content = ''hi''\<rparr>,
                                       \<lparr>Role = ''assistant'', Content = ''Hello''\<rparr>]\<rparr>"
    unfolding de by simp
  from Load_by_entry_name [OF rd, of "''xy''" go_lib] f2
  have c: "Load go_lib example_os example_store ''xy'' = Inl (AmbiguousPrefix ''xy'')" by blast
  from rd f0 a f1 ca b f2 c show ?thesis by blast
qed

subsection \<open>C4: Save then Load\<close>

text \<open>
  C4 as stated fails. A conversation with the identifier \<open>xy\<close>, saved next to the
  conversations \<open>xyw\<close> and \<open>xyz\<close>, is not returned by \<open>Load\<close> with its full identifier: the
  identifier is a prefix of the other entries' names and the result is the ambiguous-prefix
  error. A conversation with the identifier \<open>../x\<close> is not saved at all: the path check
  rejects its file. A conversation with the identifier \<open>sub/x\<close> is saved, when the base
  directory has a directory \<open>sub\<close>, inside that directory, where \<open>Load\<close> does not look: the
  result is the not-found error. A message whose content is the byte \<open>0xFF\<close>, which is not
  UTF-8, comes back as the replacement character \<open>U+FFFD\<close>. And an identifier of 251 bytes,
  or with a NUL byte, gives a file name that the system refuses: \<open>Save\<close> fails.
\<close>

theorem Save_then_Load_counterexample:
  \<open>os_ReadDir example_os (basePath example_store) = Inr [''xyw.json'', ''xyz.json''] \<and>
   (case Save go_lib example_os example_store
           \<lparr>ID = ''xy'', Messages = [\<lparr>Role = ''user'', Content = ''hi''\<rparr>]\<rparr> of
      Inl e \<Rightarrow> False
    | Inr os' \<Rightarrow>
        os_ReadDir os' (basePath example_store) = Inr [''xy.json'', ''xyw.json'', ''xyz.json''] \<and>
        Load go_lib os' example_store ''xy'' = Inl (AmbiguousPrefix ''xy'')) \<and>
   Save go_lib example_os example_store
      \<lparr>ID = ''../x'', Messages = [\<lparr>Role = ''user'', Content = ''hi''\<rparr>]\<rparr>
     = Inl (UnsafePath ''/home/u/.plexctl/x.json'') \<and>
   (case Save go_lib (example_os\<lparr>dirs := dirs example_os @ [''/home/u/.plexctl/threads/sub'']\<rparr>)
           example_store \<lparr>ID = ''sub/x'', Messages = [\<lparr>Role = ''user'', Content = ''hi''\<rparr>]\<rparr> of
      Inl e \<Rightarrow> False
    | Inr os' \<Rightarrow>
        os_ReadDir os' (basePath example_store) = Inr [''sub'', ''xyw.json'', ''xyz.json''] \<and>
        os_ReadDir os' ''/home/u/.plexctl/threads/sub'' = Inr [''x.json''] \<and>
        Load go_lib os' example_store ''sub/x'' = Inl NotFound) \<and>
   (case Save go_lib example_os example_store
           \<lparr>ID = ''u8'', Messages = [\<lparr>Role = ''user'', Content = [CHR 0xFF]\<rparr>]\<rparr> of
      Inl e \<Rightarrow> False
    | Inr os' \<Rightarrow>
        Load go_lib os' example_store ''u8''
          = Inr \<lparr>ID = ''u8'',
                 Messages = [\<lparr>Role = ''user'', Content = [CHR 0xEF, CHR 0xBF, CHR 0xBD]\<rparr>]\<rparr>) \<and>
   Save go_lib example_os example_store
      \<lparr>ID = replicate 251 (CHR ''a''), Messages = []\<rparr> = Inl IOError \<and>
   Save go_lib example_os example_store \<lparr>ID = [CHR 0x00], Messages = []\<rparr> = Inl IOError\<close>
  by code_simp

text \<open>
  C4, amended. Let the encoding of the conversation decode back to it, and let its
  identifier have no separator and be a prefix of no entry name of the base directory other
  than its own file's. Whenever \<open>Save\<close> succeeds, \<open>Load\<close> with the full identifier then
  returns the conversation: the same identifier and the same messages in order. The base
  directory is any that \<open>os.ReadDir\<close> reads: absolute or relative, cleaned or not.
\<close>

theorem Save_then_Load:
  assumes "Save L os fs th = Inr os'"
    and "json_MarshalIndent_Thread L th = Some data"
    and "json_Unmarshal_Thread L data = Some th"
    and "os_ReadDir os (basePath fs) = Inr entries"
    and "CHR ''/'' \<notin> set (ID th)"
    and "\<forall>n\<in>set entries. prefix (ID th) n \<longrightarrow> n = ID th @ ''.json''"
  shows "Load L os' fs (ID th) = Inr th"
  using assms by (rule Save_Load)

theorem Save_then_Load_witness:
  \<open>(case json_MarshalIndent_Thread go_lib
           \<lparr>ID = ''abc'', Messages = [\<lparr>Role = ''user'', Content = ''say "hi" <now>''\<rparr>,
                                     \<lparr>Role = ''assistant'', Content = ''Hello''\<rparr>]\<rparr> of
      None \<Rightarrow> False
    | Some data \<Rightarrow>
        json_Unmarshal_Thread go_lib data
          = Some \<lparr>ID = ''abc'', Messages = [\<lparr>Role = ''user'', Content = ''say "hi" <now>''\<rparr>,
                                           \<lparr>Role = ''assistant'', Content = ''Hello''\<rparr>]\<rparr>) \<and>
   os_ReadDir example_os (basePath example_store) = Inr [''xyw.json'', ''xyz.json''] \<and>
   CHR ''/'' \<notin> set ''abc'' \<and>
   filter (prefix ''abc'') [''xyw.json'', ''xyz.json''] = [] \<and>
   (case Save go_lib example_os example_store
           \<lparr>ID = ''abc'', Messages = [\<lparr>Role = ''user'', Content = ''say "hi" <now>''\<rparr>,
                                     \<lparr>Role = ''assistant'', Content = ''Hello''\<rparr>]\<rparr> of
      Inl e \<Rightarrow> False
    | Inr os' \<Rightarrow>
        Load go_lib os' example_store ''abc''
          = Inr \<lparr>ID = ''abc'', Messages = [\<lparr>Role = ''user'', Content = ''say "hi" <now>''\<rparr>,
                                           \<lparr>Role = ''assistant'', Content = ''Hello''\<rparr>]\<rparr>)\<close>
proof -
  let ?th = \<open>\<lparr>ID = ''abc'', Messages = [\<lparr>Role = ''user'', Content = ''say "hi" <now>''\<rparr>,
                                     \<lparr>Role = ''assistant'', Content = ''Hello''\<rparr>]\<rparr>\<close>
  have rt: "(case json_MarshalIndent_Thread go_lib ?th of None \<Rightarrow> False
             | Some data \<Rightarrow> json_Unmarshal_Thread go_lib data = Some ?th)"
    by code_simp
  then obtain data where enc: "json_MarshalIndent_Thread go_lib ?th = Some data"
    and dec: "json_Unmarshal_Thread go_lib data = Some ?th"
    by (cases "json_MarshalIndent_Thread go_lib ?th") simp_all
  have rd: "os_ReadDir example_os (basePath example_store) = Inr [''xyw.json'', ''xyz.json'']"
    by code_simp
  have i: "CHR ''/'' \<notin> set (ID ?th)" by simp
  have f: "filter (prefix ''abc'') [''xyw.json'', ''xyz.json''] = []" by code_simp
  then have u: "\<forall>n\<in>set [''xyw.json'', ''xyz.json'']. prefix (ID ?th) n \<longrightarrow> n = ID ?th @ ''.json''"
    by (simp add: filter_empty_conv)
  have "(case Save go_lib example_os example_store ?th of Inl e \<Rightarrow> False | Inr os' \<Rightarrow> True)"
    by code_simp
  then obtain os' where sv: "Save go_lib example_os example_store ?th = Inr os'"
    by (cases "Save go_lib example_os example_store ?th") simp_all
  from Save_then_Load [OF sv enc dec rd i u]
  have "Load go_lib os' example_store ''abc'' = Inr ?th" by simp
  with sv have r: "(case Save go_lib example_os example_store ?th of Inl e \<Rightarrow> False
                     | Inr os' \<Rightarrow> Load go_lib os' example_store ''abc'' = Inr ?th)"
    by simp
  from rt rd f r show ?thesis by simp
qed

subsection \<open>C5: the path check\<close>

text \<open>
  C5 as stated fails for the root directory as base. \<open>checkPath\<close> asks for the resolved base
  followed by a separator as a prefix of the resolved candidate; for the root that is two
  separators, which no cleaned path starts with. The path \<open>/etc/passwd\<close> is nested under
  the root and is rejected, and so is the relative path \<open>etc\<close> in the root as working
  directory.
\<close>

theorem checkPath_root_counterexample:
  "filepath_Abs (Some ''/home/u'') ''/'' = Inr ''/'' \<and>
   filepath_Abs (Some ''/home/u'') ''/etc/passwd'' = Inr ''/etc/passwd'' \<and>
   components ''/'' = [] \<and>
   components ''/etc/passwd'' = [''etc'', ''passwd''] \<and>
   prefix (components ''/'') (components ''/etc/passwd'') \<and>
   checkPath (Some ''/home/u'') ''/'' ''/etc/passwd'' = Inl (UnsafePath ''/etc/passwd'') \<and>
   checkPath (Some ''/'') ''/'' ''etc'' = Inl (UnsafePath ''etc'')"
  by code_simp

text \<open>
  C5, amended. Let the candidate and the base directory both resolve to an absolute path.
  For a resolved base other than the root, \<open>checkPath\<close> returns the resolved candidate exactly
  when the elements of the resolved base are the first elements of the resolved candidate,
  that is when the candidate is the base itself or nested under it. For the root as base
  it returns the resolved candidate only when that is the root itself. In every other case
  the result is the error \<open>unsafe file path\<close>. The sibling \<open>/a/bx\<close> of the base \<open>/a/b\<close> is
  rejected, and so is \<open>../outside\<close>, joined to the base or resolved in it as working
  directory.
\<close>

theorem checkPath_accepts_iff:
  assumes "filepath_Abs wd candidate = Inr absFile" and "IsAbs absFile"
    and "filepath_Abs wd base = Inr absBase" and "IsAbs absBase"
  shows "(absBase \<noteq> ''/'' \<longrightarrow>
            (checkPath wd base candidate = Inr absFile)
              = prefix (components absBase) (components absFile)) \<and>
         (absBase = ''/'' \<longrightarrow>
            (checkPath wd base candidate = Inr absFile) = (absFile = ''/'')) \<and>
         (checkPath wd base candidate \<noteq> Inr absFile \<longrightarrow>
            checkPath wd base candidate = Inl (UnsafePath candidate)) \<and>
         checkPath wd ''/a/b'' ''/a/bx'' = Inl (UnsafePath ''/a/bx'') \<and>
         checkPath wd ''/a/b'' (filepath_Join [''/a/b'', ''../outside''])
           = Inl (UnsafePath ''/a/outside'') \<and>
         checkPath (Some ''/a/b'') ''/a/b'' ''../outside'' = Inl (UnsafePath ''../outside'')"
proof (intro conjI impI)
  from Abs_form [OF assms(1,2)] obtain fs where
    fs: "absFile = CHR ''/'' # intercalate ''/'' fs" and fn: "\<forall>x\<in>set fs. normal_name x" by auto
  from Abs_form [OF assms(3,4)] obtain bs where
    bs: "absBase = CHR ''/'' # intercalate ''/'' bs" and bn: "\<forall>x\<in>set bs. normal_name x" by auto
  have acc: "(checkPath wd base candidate = Inr absFile)
          = (absFile = absBase \<or> prefix (absBase @ ''/'') absFile)"
    using assms(1,3) by (auto simp: checkPath_def)
  {
    assume "absBase \<noteq> ''/''"
    with bs have ne: "bs \<noteq> []" by auto
    have "(absFile = absBase \<or> prefix (absBase @ ''/'') absFile) = prefix bs fs"
      unfolding fs bs by (rule nested_iff_components [OF bn fn ne])
    also have "\<dots> = prefix (components absBase) (components absFile)"
      unfolding fs bs by (simp only: Clean_of_form(2) [OF bn] Clean_of_form(2) [OF fn])
    finally show "(checkPath wd base candidate = Inr absFile)
        = prefix (components absBase) (components absFile)"
      unfolding acc .
  next
    assume root: "absBase = ''/''"
    from rooted_not_double_sep [OF fn] fs have "\<not> prefix ''//'' absFile" by simp
    with root show "(checkPath wd base candidate = Inr absFile) = (absFile = ''/'')"
      unfolding acc by simp
  next
    assume "checkPath wd base candidate \<noteq> Inr absFile"
    with assms(1,3) show "checkPath wd base candidate = Inl (UnsafePath candidate)"
      by (simp add: checkPath_def split: if_splits)
  }
next
  have "IsAbs ''/a/b''" and "IsAbs ''/a/bx''" by code_simp+
  then have "checkPath wd ''/a/b'' ''/a/bx'' = checkPath None ''/a/b'' ''/a/bx''"
    by (rule checkPath_absolute)
  also have "\<dots> = Inl (UnsafePath ''/a/bx'')" by code_simp
  finally show "checkPath wd ''/a/b'' ''/a/bx'' = Inl (UnsafePath ''/a/bx'')" .
next
  have j: "filepath_Join [''/a/b'', ''../outside''] = ''/a/outside''" by code_simp
  have "IsAbs ''/a/b''" and "IsAbs ''/a/outside''" by code_simp+
  then have "checkPath wd ''/a/b'' ''/a/outside'' = checkPath None ''/a/b'' ''/a/outside''"
    by (rule checkPath_absolute)
  also have "\<dots> = Inl (UnsafePath ''/a/outside'')" by code_simp
  finally show "checkPath wd ''/a/b'' (filepath_Join [''/a/b'', ''../outside''])
      = Inl (UnsafePath ''/a/outside'')"
    unfolding j .
next
  show "checkPath (Some ''/a/b'') ''/a/b'' ''../outside'' = Inl (UnsafePath ''../outside'')"
    by code_simp
qed

theorem checkPath_accepts_iff_witness:
  "filepath_Abs (Some ''/home/u'') ''/home/u/.plexctl/threads'' = Inr ''/home/u/.plexctl/threads'' \<and>
   IsAbs ''/home/u/.plexctl/threads'' \<and>
   ''/home/u/.plexctl/threads'' \<noteq> ''/'' \<and>
   components ''/home/u/.plexctl/threads'' = [''home'', ''u'', ''.plexctl'', ''threads''] \<and>
   filepath_Abs (Some ''/home/u'') ''.plexctl/threads/./abc.json'' = Inr ''/home/u/.plexctl/threads/abc.json'' \<and>
   IsAbs ''/home/u/.plexctl/threads/abc.json'' \<and>
   components ''/home/u/.plexctl/threads/abc.json'' = [''home'', ''u'', ''.plexctl'', ''threads'', ''abc.json''] \<and>
   checkPath (Some ''/home/u'') ''/home/u/.plexctl/threads'' ''.plexctl/threads/./abc.json''
     = Inr ''/home/u/.plexctl/threads/abc.json'' \<and>
   filepath_Abs (Some ''/home/u'') ''.plexctl/threads/../../.ssh/id'' = Inr ''/home/u/.ssh/id'' \<and>
   IsAbs ''/home/u/.ssh/id'' \<and>
   components ''/home/u/.ssh/id'' = [''home'', ''u'', ''.ssh'', ''id''] \<and>
   checkPath (Some ''/home/u'') ''/home/u/.plexctl/threads'' ''.plexctl/threads/../../.ssh/id''
     = Inl (UnsafePath ''.plexctl/threads/../../.ssh/id'') \<and>
   filepath_Abs (Some ''/home/u'') ''../..'' = Inr ''/'' \<and>
   IsAbs ''/'' \<and>
   checkPath (Some ''/home/u'') ''../..'' ''/tmp/..'' = Inr ''/'' \<and>
   filepath_Abs (Some ''/home/u'') ''/tmp/..'' = Inr ''/'' \<and>
   checkPath (Some ''/home/u'') ''../..'' ''.ssh/id'' = Inl (UnsafePath ''.ssh/id'')"
proof -
  let ?wd = "Some ''/home/u''"
  let ?b = "''/home/u/.plexctl/threads''"
  have a1: "filepath_Abs ?wd ''.plexctl/threads/./abc.json'' = Inr ''/home/u/.plexctl/threads/abc.json''"
    by code_simp
  have a2: "filepath_Abs ?wd ?b = Inr ?b" by code_simp
  have a3: "filepath_Abs ?wd ''.plexctl/threads/../../.ssh/id'' = Inr ''/home/u/.ssh/id''"
    by code_simp
  have a4: "filepath_Abs ?wd ''../..'' = Inr ''/''" by code_simp
  have a5: "filepath_Abs ?wd ''/tmp/..'' = Inr ''/''" by code_simp
  have a6: "filepath_Abs ?wd ''.ssh/id'' = Inr ''/home/u/.ssh/id''" by code_simp
  have i1: "IsAbs ''/home/u/.plexctl/threads/abc.json''" and i2: "IsAbs ?b"
    and i3: "IsAbs ''/home/u/.ssh/id''" and i4: "IsAbs ''/''" by code_simp+
  have n1: "?b \<noteq> ''/''" and n2: "''/home/u/.ssh/id'' \<noteq> ''/''" by simp_all
  have c1: "components ?b = [''home'', ''u'', ''.plexctl'', ''threads'']" by code_simp
  have c2: "components ''/home/u/.plexctl/threads/abc.json''
      = [''home'', ''u'', ''.plexctl'', ''threads'', ''abc.json'']" by code_simp
  have c3: "components ''/home/u/.ssh/id'' = [''home'', ''u'', ''.ssh'', ''id'']" by code_simp
  have p1: "prefix (components ?b) (components ''/home/u/.plexctl/threads/abc.json'')"
    unfolding c1 c2 by simp
  have p2: "\<not> prefix (components ?b) (components ''/home/u/.ssh/id'')"
    unfolding c1 c3 by simp
  note t1 = checkPath_accepts_iff [OF a1 i1 a2 i2]
  note t2 = checkPath_accepts_iff [OF a3 i3 a2 i2]
  note t3 = checkPath_accepts_iff [OF a5 i4 a4 i4]
  note t4 = checkPath_accepts_iff [OF a6 i3 a4 i4]
  from t1 n1 p1 have r1: "checkPath ?wd ?b ''.plexctl/threads/./abc.json''
     = Inr ''/home/u/.plexctl/threads/abc.json''" by blast
  from t2 n1 p2 have r2: "checkPath ?wd ?b ''.plexctl/threads/../../.ssh/id''
     = Inl (UnsafePath ''.plexctl/threads/../../.ssh/id'')" by blast
  from t3 have r3: "checkPath ?wd ''../..'' ''/tmp/..'' = Inr ''/''" by blast
  from t4 n2 have r4: "checkPath ?wd ''../..'' ''.ssh/id'' = Inl (UnsafePath ''.ssh/id'')" by blast
  from a1 a2 a3 a4 a5 i1 i2 i3 i4 n1 c1 c2 c3 r1 r2 r3 r4 show ?thesis by blast
qed

subsection \<open>C6: the citations of the last chunk with a non-empty list\<close>

text \<open>
  C6. After any sequence of frames the working citation list is the citation list of the
  last decoded chunk whose list is non-empty, and the list the call started with when
  there is none: a later non-empty list replaces an earlier one whole, an empty list
  changes nothing. A call that ends cleanly returns that list, starting from the empty one.
  In the witness \<open>["a.com","b.com"]\<close>, then \<open>["c.com"]\<close>, then \<open>[]\<close> yield \<open>["c.com"]\<close>.
\<close>

theorem citations_last_nonempty:
  assumes "\<forall>e\<in>set pre. \<not> terminal e"
    and "checkEventEnd raw err = (True, None)"
  shows "finalCitations (process_all L st frames) =
           last_citations (finalCitations st) (decoded_chunks L (buf st) frames) \<and>
         (\<exists>st'. readSSE L (pre @ (raw, err) # rest) =
            Some (st', Inr (final st', last_citations [] (decoded_chunks L [] (map fst pre)))))"
proof
  show "finalCitations (process_all L st frames) =
          last_citations (finalCitations st) (decoded_chunks L (buf st) frames)"
    by (rule finalCitations_process_all)
next
  have "finalCitations (process_all L init_state (map fst pre)) =
          last_citations [] (decoded_chunks L [] (map fst pre))"
    using finalCitations_process_all [of L init_state "map fst pre"]
    by (simp add: init_state_def)
  with assms(2) show "\<exists>st'. readSSE L (pre @ (raw, err) # rest) =
      Some (st', Inr (final st', last_citations [] (decoded_chunks L [] (map fst pre))))"
    unfolding readSSE_def by (simp add: readSSE_loop_skip [OF assms(1)])
qed

theorem citations_last_nonempty_witness:
  \<open>list_all (\<lambda>e. \<not> terminal e)
     [(''data: {"choices":[{"delta":{"content":"A"}}],"citations":["a.com","b.com"]}'', None),
      (''data: {"choices":[{"delta":{"content":"B"}}],"citations":["c.com"]}'', None),
      (''data: {"choices":[{"delta":{"content":"C"}}],"citations":[]}'', None)] \<and>
   checkEventEnd [] (Some EOF) = (True, None) \<and>
   decoded_chunks go_lib []
     [''data: {"choices":[{"delta":{"content":"A"}}],"citations":["a.com","b.com"]}'',
      ''data: {"choices":[{"delta":{"content":"B"}}],"citations":["c.com"]}'',
      ''data: {"choices":[{"delta":{"content":"C"}}],"citations":[]}'']
   = [\<lparr>Choices = [\<lparr>Delta = \<lparr>DeltaContent = ''A''\<rparr>, FinishReason = []\<rparr>], Citations = [''a.com'', ''b.com'']\<rparr>,
      \<lparr>Choices = [\<lparr>Delta = \<lparr>DeltaContent = ''B''\<rparr>, FinishReason = []\<rparr>], Citations = [''c.com'']\<rparr>,
      \<lparr>Choices = [\<lparr>Delta = \<lparr>DeltaContent = ''C''\<rparr>, FinishReason = []\<rparr>], Citations = []\<rparr>] \<and>
   (\<exists>st'. readSSE go_lib
      [(''data: {"choices":[{"delta":{"content":"A"}}],"citations":["a.com","b.com"]}'', None),
       (''data: {"choices":[{"delta":{"content":"B"}}],"citations":["c.com"]}'', None),
       (''data: {"choices":[{"delta":{"content":"C"}}],"citations":[]}'', None),
       ([], Some EOF)]
      = Some (st', Inr (final st', [''c.com''])))\<close>
proof -
  let ?pre = \<open>[(''data: {"choices":[{"delta":{"content":"A"}}],"citations":["a.com","b.com"]}'', None :: read_err option),
               (''data: {"choices":[{"delta":{"content":"B"}}],"citations":["c.com"]}'', None),
               (''data: {"choices":[{"delta":{"content":"C"}}],"citations":[]}'', None)]\<close>
  let ?cs = \<open>[\<lparr>Choices = [\<lparr>Delta = \<lparr>DeltaContent = ''A''\<rparr>, FinishReason = []\<rparr>], Citations = [''a.com'', ''b.com'']\<rparr>,
      \<lparr>Choices = [\<lparr>Delta = \<lparr>DeltaContent = ''B''\<rparr>, FinishReason = []\<rparr>], Citations = [''c.com'']\<rparr>,
      \<lparr>Choices = [\<lparr>Delta = \<lparr>DeltaContent = ''C''\<rparr>, FinishReason = []\<rparr>], Citations = []\<rparr>]\<close>
  have l1: "list_all (\<lambda>e. \<not> terminal e) ?pre" by code_simp
  then have h1: "\<forall>e\<in>set ?pre. \<not> terminal e" by (simp only: list_all_iff)
  have h2: "checkEventEnd [] (Some EOF) = (True, None)" by code_simp
  have dc: "decoded_chunks go_lib [] (map fst ?pre) = ?cs" by code_simp
  have lc: "last_citations [] ?cs = [''c.com'']" by code_simp
  from citations_last_nonempty [OF h1 h2, of go_lib init_state "[]" "[]"]
  have "\<exists>st'. readSSE go_lib (?pre @ [([], Some EOF)]) = Some (st', Inr (final st', [''c.com'']))"
    unfolding dc lc by blast
  with l1 h2 dc show ?thesis by simp
qed

subsection \<open>C7: the assistant message is appended and saved only for a non-empty text\<close>

text \<open>
  C7. With a non-empty text, \<open>handleCompletionResponse\<close> appends one assistant message with
  that text to the thread and calls \<open>Save\<close> on it: when \<open>Save\<close> succeeds the call returns
  nil and the file of the thread holds the encoding of the extended thread; when it fails
  the error is returned wrapped and the file system is unchanged. With an empty text the
  thread and the file system are unchanged and the call returns nil, whatever the
  citations, which are only printed.
\<close>

theorem handleCompletionResponse_persists:
  "(finalContent \<noteq> [] \<longrightarrow>
      (\<exists>err os' out.
         handleCompletionResponse L os store th finalContent citations
           = (err, os', th\<lparr>Messages := Messages th @ [\<lparr>Role = ''assistant'', Content = finalContent\<rparr>]\<rparr>, out) \<and>
         (case Save L os store
                 (th\<lparr>Messages := Messages th @ [\<lparr>Role = ''assistant'', Content = finalContent\<rparr>]\<rparr>) of
            Inl e \<Rightarrow> err = Some (SaveThread e) \<and> os' = os
          | Inr os'' \<Rightarrow>
              err = None \<and> os' = os'' \<and>
              (\<exists>absFile data.
                 checkPath (cwd os) (basePath store)
                   (filepath_Join [basePath store, ID th @ ''.json'']) = Inr absFile \<and>
                 json_MarshalIndent_Thread L
                   (th\<lparr>Messages := Messages th @ [\<lparr>Role = ''assistant'', Content = finalContent\<rparr>]\<rparr>)
                   = Some data \<and>
                 os_ReadFile os' absFile = Inr data)))) \<and>
   (finalContent = [] \<longrightarrow>
      handleCompletionResponse L os store th finalContent citations
        = (None, os, th, print_citations citations))"
proof (intro conjI impI)
  let ?th' = "th\<lparr>Messages := Messages th @ [\<lparr>Role = ''assistant'', Content = finalContent\<rparr>]\<rparr>"
  assume ne: "finalContent \<noteq> []"
  show "\<exists>err os' out.
         handleCompletionResponse L os store th finalContent citations = (err, os', ?th', out) \<and>
         (case Save L os store ?th' of
            Inl e \<Rightarrow> err = Some (SaveThread e) \<and> os' = os
          | Inr os'' \<Rightarrow>
              err = None \<and> os' = os'' \<and>
              (\<exists>absFile data.
                 checkPath (cwd os) (basePath store)
                   (filepath_Join [basePath store, ID th @ ''.json'']) = Inr absFile \<and>
                 json_MarshalIndent_Thread L ?th' = Some data \<and>
                 os_ReadFile os' absFile = Inr data))"
  proof (cases "Save L os store ?th'")
    case (Inl e)
    with ne show ?thesis by (simp add: handleCompletionResponse_def)
  next
    case (Inr os'')
    from Save_writes [OF Inr] obtain absFile data where
      "checkPath (cwd os) (basePath store) (filepath_Join [basePath store, ID th @ ''.json'']) = Inr absFile"
      "json_MarshalIndent_Thread L ?th' = Some data" "os_ReadFile os'' absFile = Inr data"
      by auto
    with ne Inr show ?thesis by (simp add: handleCompletionResponse_def)
  qed
next
  assume "finalContent = []"
  then show "handleCompletionResponse L os store th finalContent citations
        = (None, os, th, print_citations citations)"
    by (simp add: handleCompletionResponse_def)
qed

theorem handleCompletionResponse_persists_witness:
  \<open>''Hello'' \<noteq> [] \<and>
   (case Save go_lib example_os example_store
           \<lparr>ID = ''abc'', Messages = [\<lparr>Role = ''user'', Content = ''hi''\<rparr>,
                                     \<lparr>Role = ''assistant'', Content = ''Hello''\<rparr>]\<rparr> of
      Inl e \<Rightarrow> False
    | Inr os'' \<Rightarrow>
        handleCompletionResponse go_lib example_os example_store
            \<lparr>ID = ''abc'', Messages = [\<lparr>Role = ''user'', Content = ''hi''\<rparr>]\<rparr> ''Hello'' [''a.com'']
          = (None, os'',
             \<lparr>ID = ''abc'', Messages = [\<lparr>Role = ''user'', Content = ''hi''\<rparr>,
                                       \<lparr>Role = ''assistant'', Content = ''Hello''\<rparr>]\<rparr>,
             [CitationsHeader, CitationLine 1 ''a.com'']) \<and>
        Load go_lib os'' example_store ''abc''
          = Inr \<lparr>ID = ''abc'', Messages = [\<lparr>Role = ''user'', Content = ''hi''\<rparr>,
                                           \<lparr>Role = ''assistant'', Content = ''Hello''\<rparr>]\<rparr>) \<and>
   handleCompletionResponse go_lib example_os example_store
       \<lparr>ID = ''abc'', Messages = [\<lparr>Role = ''user'', Content = ''hi''\<rparr>]\<rparr> [] [''a.com'']
     = (None, example_os, \<lparr>ID = ''abc'', Messages = [\<lparr>Role = ''user'', Content = ''hi''\<rparr>]\<rparr>,
        [CitationsHeader, CitationLine 1 ''a.com''])\<close>
proof -
  let ?th = \<open>\<lparr>ID = ''abc'', Messages = [\<lparr>Role = ''user'', Content = ''hi''\<rparr>]\<rparr>\<close>
  let ?th' = \<open>\<lparr>ID = ''abc'', Messages = [\<lparr>Role = ''user'', Content = ''hi''\<rparr>,
                                     \<lparr>Role = ''assistant'', Content = ''Hello''\<rparr>]\<rparr>\<close>
  have n: "''Hello'' \<noteq> []" by simp
  have th': "?th\<lparr>Messages := Messages ?th @ [\<lparr>Role = ''assistant'', Content = ''Hello''\<rparr>]\<rparr> = ?th'"
    by simp
  have pc: "print_citations [''a.com''] = [CitationsHeader, CitationLine 1 ''a.com'']"
    by code_simp
  have sv: "(case Save go_lib example_os example_store ?th' of Inl e \<Rightarrow> False
             | Inr os'' \<Rightarrow> Load go_lib os'' example_store ''abc'' = Inr ?th')"
    by code_simp
  note T = handleCompletionResponse_persists
             [where L = go_lib and os = example_os and store = example_store and th = ?th
                and citations = "[''a.com'']"]
  from T [of "''Hello''"] n obtain err os' out where
    h: "handleCompletionResponse go_lib example_os example_store ?th ''Hello'' [''a.com'']
          = (err, os', ?th', out)"
    and s: "(case Save go_lib example_os example_store ?th' of
               Inl e \<Rightarrow> err = Some (SaveThread e) \<and> os' = example_os
             | Inr os'' \<Rightarrow> err = None \<and> os' = os'' \<and>
                 (\<exists>absFile data.
                    checkPath (cwd example_os) (basePath example_store)
                      (filepath_Join [basePath example_store, ID ?th @ ''.json'']) = Inr absFile \<and>
                    json_MarshalIndent_Thread go_lib ?th' = Some data \<and>
                    os_ReadFile os' absFile = Inr data))"
    unfolding th' by blast
  have a: "(case Save go_lib example_os example_store ?th' of
      Inl e \<Rightarrow> False
    | Inr os'' \<Rightarrow>
        handleCompletionResponse go_lib example_os example_store ?th ''Hello'' [''a.com'']
          = (None, os'', ?th', [CitationsHeader, CitationLine 1 ''a.com'']) \<and>
        Load go_lib os'' example_store ''abc'' = Inr ?th')"
  proof (cases "Save go_lib example_os example_store ?th'")
    case (Inl e)
    with sv show ?thesis by simp
  next
    case (Inr os'')
    with s have "err = None" and "os' = os''" by simp_all
    moreover from Inr n have "out = print_citations [''a.com'']"
      using h by (simp add: handleCompletionResponse_def)
    ultimately show ?thesis using h sv Inr pc by simp
  qed
  from T [of "[]"] have b: "handleCompletionResponse go_lib example_os example_store ?th [] [''a.com'']
     = (None, example_os, ?th, [CitationsHeader, CitationLine 1 ''a.com''])"
    unfolding pc by simp
  from n a b show ?thesis by blast
qed

subsection \<open>C8: a decode failure accumulates, a decode success resets and emits\<close>

text \<open>
  C8. For a non-empty frame, \<open>processSSEChunk\<close> decodes the buffer extended by the frame's
  payload. When that fails the call returns nil (no error, whatever the context), and the
  state is unchanged but for the buffer, which keeps the old bytes followed by the payload;
  the next call decodes that buffer followed by the next payload. When it succeeds the
  chunk is emitted and the buffer is empty.
\<close>

theorem decode_failure_accumulates:
  assumes "raw \<noteq> []"
  shows "(json_Unmarshal_sseChunk L (buf st @ payload raw) = None \<longrightarrow>
            processSSEChunk L ctx_done raw st = Inr (st\<lparr>buf := buf st @ payload raw\<rparr>) \<and>
            (raw2 \<noteq> [] \<longrightarrow>
               processSSEChunk L False raw2 (st\<lparr>buf := buf st @ payload raw\<rparr>) =
                 Inr (case json_Unmarshal_sseChunk L (buf st @ payload raw @ payload raw2) of
                        None \<Rightarrow> st\<lparr>buf := buf st @ payload raw @ payload raw2\<rparr>
                      | Some chunk \<Rightarrow> emit_chunk L chunk st))) \<and>
         (\<forall>chunk. json_Unmarshal_sseChunk L (buf st @ payload raw) = Some chunk \<longrightarrow>
            processSSEChunk L False raw st = Inr (emit_chunk L chunk st) \<and>
            buf (emit_chunk L chunk st) = [])"
proof (intro conjI impI allI)
  assume "json_Unmarshal_sseChunk L (buf st @ payload raw) = None"
  with assms show "processSSEChunk L ctx_done raw st = Inr (st\<lparr>buf := buf st @ payload raw\<rparr>)"
    by (simp add: processSSEChunk_decode_failure)
next
  assume "raw2 \<noteq> []"
  then show "processSSEChunk L False raw2 (st\<lparr>buf := buf st @ payload raw\<rparr>) =
      Inr (case json_Unmarshal_sseChunk L (buf st @ payload raw @ payload raw2) of
             None \<Rightarrow> st\<lparr>buf := buf st @ payload raw @ payload raw2\<rparr>
           | Some chunk \<Rightarrow> emit_chunk L chunk st)"
    by (simp add: processSSEChunk_live split: option.splits)
next
  fix chunk
  assume "json_Unmarshal_sseChunk L (buf st @ payload raw) = Some chunk"
  with assms show "processSSEChunk L False raw st = Inr (emit_chunk L chunk st)"
    by (simp add: processSSEChunk_live)
next
  fix chunk
  show "buf (emit_chunk L chunk st) = []"
    by (simp add: emit_chunk_def Let_def)
qed

theorem decode_failure_accumulates_witness:
  \<open>''data: {"choices":[{"del'' \<noteq> [] \<and>
   json_Unmarshal_sseChunk go_lib (buf init_state @ payload ''data: {"choices":[{"del'') = None \<and>
   processSSEChunk go_lib True ''data: {"choices":[{"del'' init_state
     = Inr (init_state\<lparr>buf := buf init_state @ payload ''data: {"choices":[{"del''\<rparr>) \<and>
   ''ta":{"content":"Hi"}}]}'' \<noteq> [] \<and>
   json_Unmarshal_sseChunk go_lib
       (buf (init_state\<lparr>buf := ''{"choices":[{"del''\<rparr>) @ payload ''ta":{"content":"Hi"}}]}'')
     = Some \<lparr>Choices = [\<lparr>Delta = \<lparr>DeltaContent = ''Hi''\<rparr>, FinishReason = []\<rparr>], Citations = []\<rparr> \<and>
   processSSEChunk go_lib False ''ta":{"content":"Hi"}}]}'' (init_state\<lparr>buf := ''{"choices":[{"del''\<rparr>)
     = Inr (emit_chunk go_lib
              \<lparr>Choices = [\<lparr>Delta = \<lparr>DeltaContent = ''Hi''\<rparr>, FinishReason = []\<rparr>], Citations = []\<rparr>
              (init_state\<lparr>buf := ''{"choices":[{"del''\<rparr>))\<close>
proof -
  let ?r1 = \<open>''data: {"choices":[{"del''\<close>
  let ?r2 = \<open>''ta":{"content":"Hi"}}]}''\<close>
  let ?st = \<open>init_state\<lparr>buf := ''{"choices":[{"del''\<rparr>\<close>
  let ?c = \<open>\<lparr>Choices = [\<lparr>Delta = \<lparr>DeltaContent = ''Hi''\<rparr>, FinishReason = []\<rparr>], Citations = []\<rparr>\<close>
  have n1: "?r1 \<noteq> []" and n2: "?r2 \<noteq> []" by simp_all
  have d1: "json_Unmarshal_sseChunk go_lib (buf init_state @ payload ?r1) = None"
    by code_simp
  have d2: "json_Unmarshal_sseChunk go_lib (buf ?st @ payload ?r2) = Some ?c"
    by code_simp
  from decode_failure_accumulates [OF n1, where L = go_lib and st = init_state and ctx_done = True] d1
  have a: "processSSEChunk go_lib True ?r1 init_state
     = Inr (init_state\<lparr>buf := buf init_state @ payload ?r1\<rparr>)" by blast
  from decode_failure_accumulates [OF n2, where L = go_lib and st = ?st] d2
  have b: "processSSEChunk go_lib False ?r2 ?st = Inr (emit_chunk go_lib ?c ?st)" by blast
  from n1 n2 d1 d2 a b show ?thesis by blast
qed

subsection \<open>C9: the Paced Emitter prints what was submitted, in order\<close>

text \<open>
  C9. In every state the two tasks reach, in whatever order they are given their steps,
  the runes printed so far, followed by those in the channel and those still to submit, are
  the submitted sequence: nothing is lost, duplicated or reordered. The consumer returns
  only when the channel is closed and drained, with all of the sequence printed, and the
  producer returns only after it. The tasks never block each other for ever (when neither
  can step, the producer has returned), every step brings the end nearer, and when the
  tasks step in turn the call returns with the whole sequence printed.
\<close>

theorem paced_emitter_order:
  assumes "s = run sched (emitter_init xs)"
  shows "sink s @ chanbuf s @ pending s = xs \<and>
         length (chanbuf s) \<le> smoothPrintBufferSize \<and>
         (consumer s = Exited \<longrightarrow> chanbuf s = [] \<and> pending s = [] \<and> sink s = xs) \<and>
         (producer s = Returned \<longrightarrow> consumer s = Exited \<and> sink s = xs) \<and>
         (act Producer s = None \<and> act Consumer s = None \<longrightarrow> producer s = Returned) \<and>
         (\<forall>a s'. act a s = Some s' \<longrightarrow> emitter_measure s' < emitter_measure s) \<and>
         producer (run (round_robin (emitter_measure (emitter_init xs))) (emitter_init xs)) = Returned \<and>
         sink (run (round_robin (emitter_measure (emitter_init xs))) (emitter_init xs)) = xs"
proof -
  have inv: "emitter_inv xs s"
    unfolding assms by (rule emitter_inv_run [OF emitter_inv_init])
  then have a: "sink s @ chanbuf s @ pending s = xs"
    and b: "length (chanbuf s) \<le> smoothPrintBufferSize"
    by (simp_all add: emitter_inv_def)
  from inv have c: "consumer s = Exited \<longrightarrow> chanbuf s = [] \<and> pending s = [] \<and> sink s = xs"
    by (auto simp: emitter_inv_def)
  from inv c have d: "producer s = Returned \<longrightarrow> consumer s = Exited \<and> sink s = xs"
    by (auto simp: emitter_inv_def)
  from inv have e: "act Producer s = None \<and> act Consumer s = None \<longrightarrow> producer s = Returned"
    by (blast intro: emitter_no_deadlock)
  have f: "\<forall>a s'. act a s = Some s' \<longrightarrow> emitter_measure s' < emitter_measure s"
    by (blast intro: emitter_measure_act)
  let ?t = "run (round_robin (emitter_measure (emitter_init xs))) (emitter_init xs)"
  have g: "producer ?t = Returned"
    by (rule round_robin_returns [OF emitter_inv_init]) simp
  have "emitter_inv xs ?t" by (rule emitter_inv_run [OF emitter_inv_init])
  with g have h: "sink ?t = xs" by (auto simp: emitter_inv_def)
  from a b c d e f g h show ?thesis by blast
qed

theorem paced_emitter_order_witness:
  "run [Consumer, Producer, Consumer, Consumer, Producer, Producer, Consumer, Consumer, Consumer,
        Producer] (emitter_init [72, 105])
     = \<lparr>pending = [], chanbuf = [], chan_closed = True, sink = [72, 105], ctx_cancelled = True,
        producer = Returned, consumer = Exited\<rparr> \<and>
   run [Producer, Producer, Consumer] (emitter_init [72, 105])
     = \<lparr>pending = [], chanbuf = [105], chan_closed = False, sink = [72], ctx_cancelled = False,
        producer = Sending, consumer = Ticking\<rparr> \<and>
   act Consumer (emitter_init [72, 105]) = None \<and>
   emitter_measure (emitter_init [72, 105]) = 11 \<and>
   sink (run [Producer, Producer, Consumer] (emitter_init [72, 105])) @
     chanbuf (run [Producer, Producer, Consumer] (emitter_init [72, 105])) @
     pending (run [Producer, Producer, Consumer] (emitter_init [72, 105])) = [72, 105]"
proof -
  let ?s1 = "run [Consumer, Producer, Consumer, Consumer, Producer, Producer, Consumer, Consumer,
                  Consumer, Producer] (emitter_init [72, 105])"
  let ?s2 = "run [Producer, Producer, Consumer] (emitter_init [72, 105])"
  have r1: "?s1 = \<lparr>pending = [], chanbuf = [], chan_closed = True, sink = [72, 105],
                    ctx_cancelled = True, producer = Returned, consumer = Exited\<rparr>"
    by code_simp
  have r2: "?s2 = \<lparr>pending = [], chanbuf = [105], chan_closed = False, sink = [72],
                    ctx_cancelled = False, producer = Sending, consumer = Ticking\<rparr>"
    by code_simp
  have r3: "act Consumer (emitter_init [72, 105]) = None" by code_simp
  have r4: "emitter_measure (emitter_init [72, 105]) = 11" by code_simp
  from paced_emitter_order [OF refl, of "[Producer, Producer, Consumer]" "[72, 105]"]
  have "sink ?s2 @ chanbuf ?s2 @ pending ?s2 = [72, 105]" by blast
  with r1 r2 r3 r4 show ?thesis by blast
qed

subsection \<open>C10: a frame that contains the sentinel ends the stream\<close>

text \<open>
  C10. When the frames before it have not ended the call, a frame whose bytes contain
  \<open>[DONE]\<close> anywhere, delivered without a read failure, makes \<open>readSSE\<close> return
  successfully: the state at the return is the state the earlier frames left, so nothing
  of the frame is parsed or appended to the buffer, and the values returned are the text and
  the citations accumulated before it. In the witness the sentinel is inside the content
  delta of an ordinary data frame.
\<close>

theorem done_sentinel_ends_stream:
  assumes "\<forall>e\<in>set pre. \<not> terminal e"
    and "bytes_Contains raw ''[DONE]''"
    and "err \<noteq> Some ReadFailure"
  shows "readSSE L (pre @ (raw, err) # rest) =
           Some (process_all L init_state (map fst pre),
                 Inr (final (process_all L init_state (map fst pre)),
                      finalCitations (process_all L init_state (map fst pre))))"
proof -
  have "err = None \<or> err = Some EOF"
  proof (cases err)
    case None
    then show ?thesis by simp
  next
    case (Some a)
    with assms(3) show ?thesis by (cases a) simp_all
  qed
  with assms(2) have "checkEventEnd raw err = (True, None)"
    by (auto simp: checkEventEnd_def)
  then show ?thesis
    unfolding readSSE_def by (simp add: readSSE_loop_skip [OF assms(1)])
qed

theorem done_sentinel_ends_stream_witness:
  \<open>list_all (\<lambda>e. \<not> terminal e)
     [(''data: {"choices":[{"delta":{"content":"He"}}],"citations":["a.com"]}'', None)] \<and>
   bytes_Contains ''data: {"choices":[{"delta":{"content":"say [DONE] now"}}]}'' ''[DONE]'' \<and>
   (None :: read_err option) \<noteq> Some ReadFailure \<and>
   readSSE go_lib
     [(''data: {"choices":[{"delta":{"content":"He"}}],"citations":["a.com"]}'', None),
      (''data: {"choices":[{"delta":{"content":"say [DONE] now"}}]}'', None),
      (''data: {"choices":[{"delta":{"content":"llo"}}]}'', None)]
   = Some (\<lparr>buf = [], final = ''He'', finalCitations = [''a.com''], charCh = [72, 101]\<rparr>,
           Inr (''He'', [''a.com'']))\<close>
proof -
  let ?pre = \<open>[(''data: {"choices":[{"delta":{"content":"He"}}],"citations":["a.com"]}'', None :: read_err option)]\<close>
  let ?raw = \<open>''data: {"choices":[{"delta":{"content":"say [DONE] now"}}]}''\<close>
  let ?rest = \<open>[(''data: {"choices":[{"delta":{"content":"llo"}}]}'', None :: read_err option)]\<close>
  have l1: "list_all (\<lambda>e. \<not> terminal e) ?pre" by code_simp
  then have h1: "\<forall>e\<in>set ?pre. \<not> terminal e" by (simp only: list_all_iff)
  have h2: "bytes_Contains ?raw ''[DONE]''" by code_simp
  have ev: "process_all go_lib init_state (map fst ?pre)
              = \<lparr>buf = [], final = ''He'', finalCitations = [''a.com''], charCh = [72, 101]\<rparr>"
    by code_simp
  have h3: "(None :: read_err option) \<noteq> Some ReadFailure" by simp
  from done_sentinel_ends_stream [OF h1 h2 h3, of go_lib ?rest] l1 h2
  show ?thesis unfolding ev by simp
qed

end
